theory Spec2Isabelle
  imports Complex_Main "HOL-Library.Word" "HOL-Library.AList" "HOL-Library.Monad_Syntax"
begin

unbundle bit_operations_syntax

section \<open>Octets, faults and byte order\<close>

text \<open>
  A datagram is a list of octets (\<open>uint8_t\<close>). The C++ code passes a pointer \<open>data\<close> and a
  length \<open>len\<close>; the model passes the list of readable octets and \<open>len\<close> separately, as the
  source does. Reading \<open>data[i]\<close> at an index outside the list is an out-of-bounds read: the
  model stops there with the fault \<open>OutOfBounds i\<close>. An erase through a list iterator that
  points to no node of the list is the fault \<open>InvalidIterator\<close>.
\<close>

type_synonym byte = "8 word"

datatype fault = OutOfBounds nat | InvalidIterator

definition read_octet :: "byte list \<Rightarrow> nat \<Rightarrow> fault + byte" where
  "read_octet data i = (if i < length data then Inr (data ! i) else Inl (OutOfBounds i))"

text \<open>\<open>std::string\<close> holds \<open>char\<close>s; the casts between \<open>uint8_t\<close> and \<open>char\<close> keep the bits.\<close>

definition byte_to_char :: "byte \<Rightarrow> char" where
  "byte_to_char b = char_of (unat b)"

definition char_to_byte :: "char \<Rightarrow> byte" where
  "char_to_byte c = of_nat (of_char c)"

text \<open>
  The header fields are read and written through \<open>uint16_t*\<close>, in the byte order of the host;
  \<open>le\<close> says whether the host is little-endian. \<open>load16_host le b0 b1\<close> is the value of the
  \<open>uint16_t\<close> stored in the two octets \<open>b0\<close>, \<open>b1\<close> (in memory order), \<open>store16_host\<close> the two
  octets of a \<open>uint16_t\<close> in memory order.
\<close>

definition mk16 :: "byte \<Rightarrow> byte \<Rightarrow> 16 word" where
  "mk16 hi lo = push_bit 8 (ucast hi) OR ucast lo"

definition load16_host :: "bool \<Rightarrow> byte \<Rightarrow> byte \<Rightarrow> 16 word" where
  "load16_host le b0 b1 = (if le then mk16 b1 b0 else mk16 b0 b1)"

definition store16_host :: "bool \<Rightarrow> 16 word \<Rightarrow> byte list" where
  "store16_host le x =
     (if le then [ucast x, ucast (drop_bit 8 x)] else [ucast (drop_bit 8 x), ucast x])"

definition byteswap16 :: "16 word \<Rightarrow> 16 word" where
  "byteswap16 x = push_bit 8 x OR drop_bit 8 x"

definition htons :: "bool \<Rightarrow> 16 word \<Rightarrow> 16 word" where
  "htons le x = (if le then byteswap16 x else x)"

definition ntohs :: "bool \<Rightarrow> 16 word \<Rightarrow> 16 word" where
  "ntohs le x = (if le then byteswap16 x else x)"

definition store32_host :: "bool \<Rightarrow> 32 word \<Rightarrow> byte list" where
  "store32_host le x =
     (if le then [ucast x, ucast (drop_bit 8 x), ucast (drop_bit 16 x), ucast (drop_bit 24 x)]
      else [ucast (drop_bit 24 x), ucast (drop_bit 16 x), ucast (drop_bit 8 x), ucast x])"

definition byteswap32 :: "32 word \<Rightarrow> 32 word" where
  "byteswap32 x =
     push_bit 24 x OR push_bit 8 (x AND 0xFF00) OR (drop_bit 8 x AND 0xFF00) OR drop_bit 24 x"

definition htonl :: "bool \<Rightarrow> 32 word \<Rightarrow> 32 word" where
  "htonl le x = (if le then byteswap32 x else x)"

section \<open>Wire codec\<close>

record DNSHeader =
  hdr_id :: "16 word"
  flags :: "16 word"
  qdcount :: "16 word"
  ancount :: "16 word"
  nscount :: "16 word"
  arcount :: "16 word"

record DNSQuestion =
  qname :: string
  qtype :: "16 word"
  qclass :: "16 word"

subsection \<open>\<open>DNSServer::parse_domain_name\<close>\<close>

text \<open>
  The \<open>while (offset < len)\<close> loop of \<open>parse_domain_name\<close>, with the local variables
  \<open>result\<close>, \<open>jumped\<close> and \<open>original_offset\<close> as arguments. The value is the returned string
  paired with the final value of the reference parameter \<open>offset\<close>; the statement
  \<open>if (jumped) offset = original_offset\<close> after the loop is applied at the two exits of the
  loop, and not at the early \<open>return ""\<close>. The loop has no bound on the number of pointers it
  follows, so the function is partial: \<open>None\<close> is a run that never returns.
\<close>

partial_function (option) parse_loop ::
  "byte list \<Rightarrow> nat \<Rightarrow> nat \<Rightarrow> string \<Rightarrow> bool \<Rightarrow> nat \<Rightarrow> (fault + string \<times> nat) option" where
  "parse_loop data len offset result jumped original_offset =
    (if offset < len then
       (case read_octet data offset of
          Inl e \<Rightarrow> Some (Inl e)
        | Inr label_len \<Rightarrow>
            if label_len = 0 then
              Some (Inr (result, if jumped then original_offset else offset + 1))
            else if label_len AND 0xC0 = 0xC0 then
              (case read_octet data (offset + 1) of
                 Inl e \<Rightarrow> Some (Inl e)
               | Inr lo \<Rightarrow>
                   parse_loop data len
                     (unat (push_bit 8 (ucast (label_len AND 0x3F) :: 32 word) OR ucast lo))
                     result True (if jumped then original_offset else offset + 2))
            else if offset + 1 + unat label_len > len then
              Some (Inr ('''', offset))
            else if offset + 1 + unat label_len > length data then
              Some (Inl (OutOfBounds (length data)))
            else
              parse_loop data len (offset + 1 + unat label_len)
                ((if result \<noteq> [] then result @ ''.'' else result)
                   @ map byte_to_char (take (unat label_len) (drop (offset + 1) data)))
                jumped original_offset)
     else Some (Inr (result, if jumped then original_offset else offset)))"

definition parse_domain_name :: "byte list \<Rightarrow> nat \<Rightarrow> nat \<Rightarrow> (fault + string \<times> nat) option" where
  "parse_domain_name data len offset = parse_loop data len offset [] False offset"

text \<open>
  The position of the first compression pointer of the name that starts at \<open>offset\<close>: the
  walk over the length octets and their labels, without following any pointer. \<open>None\<close> when
  the name ends (terminator, end of buffer, overrunning label) before any pointer.
\<close>

function first_pointer :: "byte list \<Rightarrow> nat \<Rightarrow> nat \<Rightarrow> nat option" where
  "first_pointer data len offset =
     (if offset < len \<and> offset < length data then
        (if data ! offset = 0 then None
         else if data ! offset AND 0xC0 = 0xC0 then Some offset
         else if offset + 1 + unat (data ! offset) > len then None
         else first_pointer data len (offset + 1 + unat (data ! offset)))
      else None)"
  by pat_completeness auto
termination
  by (relation "measure (\<lambda>(data, len, offset). len - offset)") auto

text \<open>The target of the two-octet pointer at position \<open>p\<close>.\<close>

definition pointer_target :: "byte list \<Rightarrow> nat \<Rightarrow> nat" where
  "pointer_target data p =
     unat (push_bit 8 (ucast (data ! p AND 0x3F) :: 32 word) OR ucast (data ! (p + 1)))"

subsection \<open>\<open>DNSServer::encode_domain_name\<close>\<close>

text \<open>
  The loop \<open>while (getline(iss, label, '.'))\<close>: each call takes the characters up to the next
  \<open>'.'\<close> (which it consumes) or up to the end of the string; it fails, ending the loop, when
  the stream is already at its end.
\<close>

function getline_split :: "string \<Rightarrow> string list" where
  "getline_split s =
     (if s = [] then []
      else (case dropWhile (\<lambda>c. c \<noteq> CHR ''.'') s of
              [] \<Rightarrow> [s]
            | _ # rest \<Rightarrow> takeWhile (\<lambda>c. c \<noteq> CHR ''.'') s # getline_split rest))"
  by pat_completeness auto
termination
proof (relation "measure length")
  show "wf (measure length)" by simp
next
  fix s :: string and x21 x22
  assume "s \<noteq> []" and d: "dropWhile (\<lambda>c. c \<noteq> CHR ''.'') s = x21 # x22"
  have "length (dropWhile (\<lambda>c. c \<noteq> CHR ''.'') s) \<le> length s"
    by (rule length_dropWhile_le)
  then show "(x22, s) \<in> measure length" using d by simp
qed

definition encode_label :: "string \<Rightarrow> byte list" where
  "encode_label label = of_nat (length label) # map char_to_byte label"

definition encode_domain_name :: "string \<Rightarrow> byte list \<Rightarrow> byte list" where
  "encode_domain_name domain buffer =
     buffer @ concat (map encode_label (getline_split domain)) @ [0]"

subsection \<open>Header and question\<close>

definition parse_dns_header :: "bool \<Rightarrow> byte list \<Rightarrow> nat \<Rightarrow> fault + DNSHeader option" where
  "parse_dns_header le data len =
     (if len < 12 then Inr None
      else if length data < 12 then Inl (OutOfBounds (length data))
      else Inr (Some
        \<lparr>hdr_id = load16_host le (data ! 0) (data ! 1),
         flags = ntohs le (load16_host le (data ! 2) (data ! 3)),
         qdcount = ntohs le (load16_host le (data ! 4) (data ! 5)),
         ancount = ntohs le (load16_host le (data ! 6) (data ! 7)),
         nscount = ntohs le (load16_host le (data ! 8) (data ! 9)),
         arcount = ntohs le (load16_host le (data ! 10) (data ! 11))\<rparr>))"

definition parse_dns_question ::
  "bool \<Rightarrow> byte list \<Rightarrow> nat \<Rightarrow> nat \<Rightarrow> (fault + (DNSQuestion \<times> nat) option) option" where
  "parse_dns_question le data len offset =
     (case parse_domain_name data len offset of
        None \<Rightarrow> None
      | Some (Inl f) \<Rightarrow> Some (Inl f)
      | Some (Inr (name, off)) \<Rightarrow>
          if name = [] \<or> off + 4 > len then Some (Inr None)
          else if off + 4 > length data then Some (Inl (OutOfBounds (length data)))
          else Some (Inr (Some
            (\<lparr>qname = name,
              qtype = ntohs le (load16_host le (data ! off) (data ! (off + 1))),
              qclass = ntohs le (load16_host le (data ! (off + 2)) (data ! (off + 3)))\<rparr>,
             off + 4))))"

definition build_error_response :: "bool \<Rightarrow> 16 word \<Rightarrow> 16 word \<Rightarrow> byte list" where
  "build_error_response le query_id rcode =
     store16_host le query_id @
     store16_host le (htons le (0x8180 OR rcode)) @
     store16_host le (htons le 0) @
     store16_host le (htons le 0) @
     store16_host le (htons le 0) @
     store16_host le (htons le 0)"

text \<open>
  \<open>inet_aton\<close> is the C library's: it is a parameter, giving the four octets of the address
  in network order, or \<open>None\<close> when the text is no IPv4 address.
\<close>

definition build_dns_response ::
  "bool \<Rightarrow> (string \<Rightarrow> byte list option) \<Rightarrow> 16 word \<Rightarrow> string \<Rightarrow> string \<Rightarrow> byte list" where
  "build_dns_response le inet_aton query_id domain ip_addr =
     encode_domain_name domain
       (store16_host le query_id @
        store16_host le (htons le 0x8180) @
        store16_host le (htons le 1) @
        store16_host le (htons le 1) @
        store16_host le (htons le 0) @
        store16_host le (htons le 0)) @
     store16_host le (htons le 1) @
     store16_host le (htons le 1) @
     [0xC0, 0x0C] @
     store16_host le (htons le 1) @
     store16_host le (htons le 1) @
     store32_host le (htonl le 300) @
     store16_host le (htons le 4) @
     (case inet_aton ip_addr of Some addr \<Rightarrow> addr | None \<Rightarrow> [])"

section \<open>The sharded TTL + LRU cache\<close>

text \<open>
  Instants of \<open>steady_clock\<close> are integers (ticks of one nanosecond, the period of the
  clock in libstdc++ and libc++); arithmetic on them is taken without overflow. Every
  reading of the clock is an argument of the operation that reads it.
\<close>

type_synonym time_point = int

definition seconds :: "32 word \<Rightarrow> int" where
  "seconds n = int (unat n) * 1000000000"

record CacheEntry =
  ip :: string
  expiry :: time_point
  hits :: "32 word"

text \<open>The constructor \<open>CacheEntry(ip_addr, ttl_seconds)\<close>, which reads the clock.\<close>

definition CacheEntry_init :: "string \<Rightarrow> 32 word \<Rightarrow> time_point \<Rightarrow> CacheEntry" where
  "CacheEntry_init ip_addr ttl_seconds now =
     \<lparr>ip = ip_addr, expiry = now + seconds ttl_seconds, hits = 0\<rparr>"

definition is_valid :: "time_point \<Rightarrow> CacheEntry \<Rightarrow> bool" where
  "is_valid now e = (now < expiry e)"

definition CACHE_SIZE :: nat where
  "CACHE_SIZE = 8192"

definition NUM_SHARDS :: nat where
  "NUM_SHARDS = 16"

definition MAX_ENTRIES_PER_SHARD :: nat where
  "MAX_ENTRIES_PER_SHARD = CACHE_SIZE div NUM_SHARDS"

record Stats =
  hits :: "64 word"
  misses :: "64 word"
  evictions :: "64 word"
  size_entries :: nat

text \<open>
  A shard. \<open>entries\<close> is the \<open>unordered_map\<close> from domain to entry, as an association list
  with distinct keys (\<open>size()\<close> is its length). \<open>lru_list\<close> is the \<open>std::list\<close>: each node is a
  pair of its handle (the identity of the node, what a \<open>list<string>::iterator\<close> holds) and
  the domain stored in it; the front of the list is the head. \<open>lru_map\<close> maps a domain to
  the handle of a node. The mutex is not modelled: the operations of one shard run one
  after the other.
\<close>

type_synonym handle = nat

record Shard =
  entries :: "(string \<times> CacheEntry) list"
  lru_list :: "(handle \<times> string) list"
  lru_map :: "(string \<times> handle) list"
  hits :: "64 word"
  misses :: "64 word"
  evictions :: "64 word"

text \<open>
  \<open>lru_list.erase(it)\<close>: removes the node the iterator points to; the behaviour is undefined
  (\<open>None\<close>) when it points to no node of the list.
\<close>

definition list_erase :: "handle \<Rightarrow> (handle \<times> string) list \<Rightarrow> (handle \<times> string) list option" where
  "list_erase h l =
     (if h \<in> set (map fst l) then Some (filter (\<lambda>n. fst n \<noteq> h) l) else None)"

text \<open>\<open>lru_list.push_front(v)\<close>: the new node is distinct from every node of the list.\<close>

definition fresh_handle :: "(handle \<times> string) list \<Rightarrow> handle" where
  "fresh_handle l = Suc (Max (insert 0 (set (map fst l))))"

definition push_front :: "string \<Rightarrow> (handle \<times> string) list \<Rightarrow> (handle \<times> string) list" where
  "push_front v l = (fresh_handle l, v) # l"

text \<open>
  The block \<open>auto lru_it = lru_map.find(k); if (lru_it != lru_map.end()) {
  lru_list.erase(lru_it->second); lru_map.erase(lru_it); }\<close>, which \<open>cleanup_expired\<close> and
  \<open>get\<close> both contain.
\<close>

definition lru_forget :: "string \<Rightarrow> Shard \<Rightarrow> Shard option" where
  "lru_forget k s =
     (case map_of (lru_map s) k of
        None \<Rightarrow> Some s
      | Some h \<Rightarrow> do {
          l \<leftarrow> list_erase h (lru_list s);
          Some (s\<lparr>lru_list := l, lru_map := AList.delete k (lru_map s)\<rparr>)
        })"

text \<open>
  \<open>Shard::cleanup_expired\<close>: the loop runs over the entries; an expired one is erased, which
  leaves the entries still to visit as they are.
\<close>

fun cleanup_loop :: "time_point \<Rightarrow> (string \<times> CacheEntry) list \<Rightarrow> Shard \<Rightarrow> Shard option" where
  "cleanup_loop now [] s = Some s"
| "cleanup_loop now ((k, e) # rest) s =
     (if now \<ge> expiry e then do {
        s' \<leftarrow> lru_forget k s;
        cleanup_loop now rest (s'\<lparr>entries := AList.delete k (entries s')\<rparr>)
      } else cleanup_loop now rest s)"

definition cleanup_expired :: "time_point \<Rightarrow> Shard \<Rightarrow> Shard option" where
  "cleanup_expired now s = cleanup_loop now (entries s) s"

definition evict_lru :: "Shard \<Rightarrow> Shard" where
  "evict_lru s =
     (if length (entries s) \<ge> MAX_ENTRIES_PER_SHARD \<and> lru_list s \<noteq> [] then
        let oldest = snd (last (lru_list s)) in
          s\<lparr>entries := AList.delete oldest (entries s),
            lru_map := AList.delete oldest (lru_map s),
            lru_list := butlast (lru_list s),
            evictions := evictions s + 1\<rparr>
      else s)"

definition touch_lru :: "string \<Rightarrow> Shard \<Rightarrow> Shard option" where
  "touch_lru domain s = do {
     l \<leftarrow> (case map_of (lru_map s) domain of
            None \<Rightarrow> Some (lru_list s)
          | Some h \<Rightarrow> list_erase h (lru_list s));
     Some (s\<lparr>lru_list := push_front domain l,
             lru_map := AList.update domain (fresh_handle l) (lru_map s)\<rparr>)
   }"

text \<open>
  The bodies of \<open>FastDNSCache::get\<close> and \<open>FastDNSCache::set\<close> on the shard they select. \<open>now\<close>
  is the clock reading of \<open>cleanup_expired\<close>, \<open>now'\<close> the later one of \<open>is_valid\<close> (in \<open>get\<close>)
  or of the \<open>CacheEntry\<close> constructor (in \<open>set\<close>). \<open>get\<close> gives the address on a hit.
\<close>

definition shard_get ::
  "time_point \<Rightarrow> time_point \<Rightarrow> string \<Rightarrow> Shard \<Rightarrow> (string option \<times> Shard) option" where
  "shard_get now now' domain s0 = do {
     s \<leftarrow> cleanup_expired now s0;
     case map_of (entries s) domain of
       Some e \<Rightarrow>
         if is_valid now' e then do {
           s2 \<leftarrow> touch_lru domain
                  (s\<lparr>entries := AList.update domain
                                   (e\<lparr>CacheEntry.hits := CacheEntry.hits e + 1\<rparr>) (entries s),
                     hits := hits s + 1\<rparr>);
           Some (Some (ip e), s2)
         } else do {
           s1 \<leftarrow> lru_forget domain s;
           Some (None, s1\<lparr>entries := AList.delete domain (entries s1),
                          misses := misses s1 + 1\<rparr>)
         }
     | None \<Rightarrow> Some (None, s\<lparr>misses := misses s + 1\<rparr>)
   }"

definition shard_set ::
  "time_point \<Rightarrow> time_point \<Rightarrow> string \<Rightarrow> string \<Rightarrow> 32 word \<Rightarrow> Shard \<Rightarrow> Shard option" where
  "shard_set now now' domain ip_addr ttl s0 = do {
     s \<leftarrow> cleanup_expired now s0;
     let s1 = evict_lru s;
     touch_lru domain
       (s1\<lparr>entries := AList.update domain (CacheEntry_init ip_addr ttl now') (entries s1)\<rparr>)
   }"

text \<open>
  The cache is the array of \<open>NUM_SHARDS\<close> shards, indexed from 0. \<open>std::hash<string>\<close> is a
  parameter.
\<close>

type_synonym FastDNSCache = "nat \<Rightarrow> Shard"

definition get_shard_index :: "(string \<Rightarrow> 64 word) \<Rightarrow> string \<Rightarrow> nat" where
  "get_shard_index hash domain = unat (hash domain AND (of_nat NUM_SHARDS - 1))"

definition cache_get ::
  "(string \<Rightarrow> 64 word) \<Rightarrow> time_point \<Rightarrow> time_point \<Rightarrow> string \<Rightarrow> FastDNSCache
     \<Rightarrow> (string option \<times> FastDNSCache) option" where
  "cache_get hash now now' domain shards =
     (let i = get_shard_index hash domain in
      case shard_get now now' domain (shards i) of
        None \<Rightarrow> None
      | Some (r, s) \<Rightarrow> Some (r, shards(i := s)))"

definition cache_set ::
  "(string \<Rightarrow> 64 word) \<Rightarrow> time_point \<Rightarrow> time_point \<Rightarrow> string \<Rightarrow> string \<Rightarrow> 32 word
     \<Rightarrow> FastDNSCache \<Rightarrow> FastDNSCache option" where
  "cache_set hash now now' domain ip_addr ttl shards =
     (let i = get_shard_index hash domain in
      case shard_set now now' domain ip_addr ttl (shards i) of
        None \<Rightarrow> None
      | Some s \<Rightarrow> Some (shards(i := s)))"

text \<open>
  \<open>FastDNSCache::cleanup_expired\<close> sweeps shard after shard; \<open>clock i\<close> is the clock reading of
  the sweep of shard \<open>i\<close>.
\<close>

fun cleanup_shards :: "(nat \<Rightarrow> time_point) \<Rightarrow> nat list \<Rightarrow> FastDNSCache \<Rightarrow> FastDNSCache option" where
  "cleanup_shards clock [] shards = Some shards"
| "cleanup_shards clock (i # rest) shards =
     (case cleanup_expired (clock i) (shards i) of
        None \<Rightarrow> None
      | Some s \<Rightarrow> cleanup_shards clock rest (shards(i := s)))"

definition cache_cleanup_expired :: "(nat \<Rightarrow> time_point) \<Rightarrow> FastDNSCache \<Rightarrow> FastDNSCache option" where
  "cache_cleanup_expired clock shards = cleanup_shards clock [0..<NUM_SHARDS] shards"

definition get_stats :: "FastDNSCache \<Rightarrow> Stats" where
  "get_stats shards =
     fold (\<lambda>i stats.
        stats\<lparr>Stats.hits := Stats.hits stats + Shard.hits (shards i),
              Stats.misses := Stats.misses stats + Shard.misses (shards i),
              Stats.evictions := Stats.evictions stats + Shard.evictions (shards i),
              size_entries := size_entries stats + length (entries (shards i))\<rparr>)
       [0..<NUM_SHARDS]
       \<lparr>Stats.hits = 0, Stats.misses = 0, Stats.evictions = 0, size_entries = 0\<rparr>"

text \<open>A cache as constructed: every shard empty, every counter zero.\<close>

definition empty_shard :: Shard where
  "empty_shard = \<lparr>entries = [], lru_list = [], lru_map = [], hits = 0, misses = 0, evictions = 0\<rparr>"

definition new_cache :: FastDNSCache where
  "new_cache = (\<lambda>i. empty_shard)"

text \<open>The public operations of the cache, each with the clock readings it makes, and their runs.\<close>

datatype cache_op =
    Get string time_point time_point
  | Set string string "32 word" time_point time_point
  | CleanupExpired "nat \<Rightarrow> time_point"

fun apply_op :: "(string \<Rightarrow> 64 word) \<Rightarrow> cache_op \<Rightarrow> FastDNSCache \<Rightarrow> FastDNSCache option" where
  "apply_op hash (Get domain now now') shards = map_option snd (cache_get hash now now' domain shards)"
| "apply_op hash (Set domain ip_addr ttl now now') shards = cache_set hash now now' domain ip_addr ttl shards"
| "apply_op hash (CleanupExpired clock) shards = cache_cleanup_expired clock shards"

fun run :: "(string \<Rightarrow> 64 word) \<Rightarrow> cache_op list \<Rightarrow> FastDNSCache \<Rightarrow> FastDNSCache option" where
  "run hash [] shards = Some shards"
| "run hash (op # ops) shards =
     (case apply_op hash op shards of None \<Rightarrow> None | Some shards' \<Rightarrow> run hash ops shards')"

section \<open>The server\<close>

text \<open>
  \<open>PrecompiledResponses::get_response\<close>: a copy of the stored packet with the query id written
  over its first two octets.
\<close>

definition get_response ::
  "bool \<Rightarrow> (string \<times> byte list) list \<Rightarrow> string \<Rightarrow> 16 word \<Rightarrow> byte list option" where
  "get_response le responses domain query_id =
     (case map_of responses domain of
        None \<Rightarrow> None
      | Some response \<Rightarrow> Some (store16_host le query_id @ drop 2 response))"

text \<open>
  What the operating system and the C library give: the byte order of the host,
  \<open>std::hash<string>\<close>, \<open>inet_aton\<close>, and \<open>resolve_upstream\<close> (a call of \<open>getaddrinfo\<close>), which
  gives the address of a domain as text, or fails.
\<close>

record platform =
  little_endian :: bool
  hash_string :: "string \<Rightarrow> 64 word"
  inet_aton :: "string \<Rightarrow> byte list option"
  resolve_upstream :: "string \<Rightarrow> string option"

text \<open>
  The clock readings of one call of \<open>handle_query\<close>: those of \<open>cache.get\<close> and \<open>cache.set\<close>,
  and the elapsed time from \<open>start_time\<close> to \<open>end_time\<close>, as the count of microseconds (cache
  hit) and of milliseconds (upstream) that \<open>duration_cast\<close> gives. Values of type \<open>double\<close>
  are real numbers.
\<close>

record query_clock =
  get_now :: time_point
  get_now' :: time_point
  set_now :: time_point
  set_now' :: time_point
  elapsed_us :: int
  elapsed_ms :: int

record PerformanceStats =
  total_queries :: "64 word"
  cache_hits :: "64 word"
  local_domain_hits :: "64 word"
  cache_hit_ratio :: "real option"
  avg_response_time_ms :: "real option"
  p95_response_time_ms :: "real option"
  p99_response_time_ms :: "real option"

record DNSServer =
  cache :: FastDNSCache
  precompiled :: "(string \<times> byte list) list"
  total_queries :: "64 word"
  cache_hits :: "64 word"
  local_domain_hits :: "64 word"
  response_times :: "real list"

text \<open>
  What a call of \<open>handle_query\<close> does besides changing the server: the lookups it makes and
  the datagrams it sends, in order.
\<close>

datatype event =
    PrecompiledLookup string
  | CacheGet string
  | CacheSet string string
  | ResolveUpstream string
  | SendTo "byte list"

text \<open>\<open>::tolower\<close> in the C locale.\<close>

definition tolower :: "char \<Rightarrow> char" where
  "tolower c =
     (if (65::nat) \<le> of_char c \<and> of_char c \<le> (90::nat) then char_of (of_char c + (32::nat)) else c)"

text \<open>
  \<open>response_times.push_back(x)\<close>, followed by the removal of the oldest 5000 samples when
  there are more than 10000.
\<close>

definition record_response_time :: "real \<Rightarrow> real list \<Rightarrow> real list" where
  "record_response_time x samples =
     (let samples' = samples @ [x]
      in if length samples' > 10000 then drop 5000 samples' else samples')"

text \<open>
  \<open>handle_query\<close> after the check of \<open>qtype\<close>: the three serving paths (pre-compiled answer,
  cache hit, upstream).
\<close>

definition serve_query ::
  "platform \<Rightarrow> query_clock \<Rightarrow> DNSHeader \<Rightarrow> DNSQuestion \<Rightarrow> DNSServer \<Rightarrow> fault + DNSServer \<times> event list" where
  "serve_query pf clk header question srv =
     (let domain = map tolower (qname question) in
      case get_response (little_endian pf) (precompiled srv) domain (hdr_id header) of
        Some response \<Rightarrow>
          Inr (srv\<lparr>local_domain_hits := local_domain_hits srv + 1\<rparr>,
               [PrecompiledLookup domain, SendTo response])
      | None \<Rightarrow>
          (case cache_get (hash_string pf) (get_now clk) (get_now' clk) domain (cache srv) of
             None \<Rightarrow> Inl InvalidIterator
           | Some (Some cached_ip, shards) \<Rightarrow>
               Inr (srv\<lparr>cache := shards,
                        cache_hits := cache_hits srv + 1,
                        response_times :=
                          record_response_time (real_of_int (elapsed_us clk) / 1000) (response_times srv)\<rparr>,
                    [PrecompiledLookup domain, CacheGet domain,
                     SendTo (build_dns_response (little_endian pf) (inet_aton pf)
                               (hdr_id header) (qname question) cached_ip)])
           | Some (None, shards) \<Rightarrow>
               (case resolve_upstream pf domain of
                  Some resolved_ip \<Rightarrow>
                    (case cache_set (hash_string pf) (set_now clk) (set_now' clk)
                            domain resolved_ip 300 shards of
                       None \<Rightarrow> Inl InvalidIterator
                     | Some shards' \<Rightarrow>
                         Inr (srv\<lparr>cache := shards',
                                  response_times :=
                                    record_response_time (real_of_int (elapsed_ms clk)) (response_times srv)\<rparr>,
                              [PrecompiledLookup domain, CacheGet domain, ResolveUpstream domain,
                               CacheSet domain resolved_ip,
                               SendTo (build_dns_response (little_endian pf) (inet_aton pf)
                                         (hdr_id header) (qname question) resolved_ip)]))
                | None \<Rightarrow>
                    Inr (srv\<lparr>cache := shards,
                             response_times :=
                               record_response_time (real_of_int (elapsed_ms clk)) (response_times srv)\<rparr>,
                         [PrecompiledLookup domain, CacheGet domain, ResolveUpstream domain,
                          SendTo (build_error_response (little_endian pf) (hdr_id header) 2)]))))"

definition handle_query ::
  "platform \<Rightarrow> query_clock \<Rightarrow> byte list \<Rightarrow> nat \<Rightarrow> DNSServer \<Rightarrow> (fault + DNSServer \<times> event list) option" where
  "handle_query pf clk data len srv0 =
     (let srv = srv0\<lparr>total_queries := total_queries srv0 + 1\<rparr> in
      case parse_dns_header (little_endian pf) data len of
        Inl f \<Rightarrow> Some (Inl f)
      | Inr None \<Rightarrow> Some (Inr (srv, []))
      | Inr (Some header) \<Rightarrow>
          if qdcount header \<noteq> 1 then Some (Inr (srv, []))
          else
            (case parse_dns_question (little_endian pf) data len 12 of
               None \<Rightarrow> None
             | Some (Inl f) \<Rightarrow> Some (Inl f)
             | Some (Inr None) \<Rightarrow> Some (Inr (srv, []))
             | Some (Inr (Some (question, offset))) \<Rightarrow>
                 if qtype question \<noteq> 1 then
                   Some (Inr (srv, [SendTo (build_error_response (little_endian pf) (hdr_id header) 4)]))
                 else Some (serve_query pf clk header question srv)))"

text \<open>
  \<open>get_performance_stats\<close>. The local \<open>PerformanceStats stats\<close> is not initialised; a field of
  type \<open>double\<close> that no statement assigns keeps an indeterminate value, \<open>None\<close>.
\<close>

definition get_performance_stats :: "DNSServer \<Rightarrow> PerformanceStats" where
  "get_performance_stats srv =
     (let sorted_times = sort (response_times srv);
          n = length sorted_times;
          p95_idx = nat \<lfloor>real n * 0.95\<rfloor>;
          p99_idx = nat \<lfloor>real n * 0.99\<rfloor>
      in
      \<lparr>PerformanceStats.total_queries = total_queries srv,
       PerformanceStats.cache_hits = cache_hits srv,
       PerformanceStats.local_domain_hits = local_domain_hits srv,
       cache_hit_ratio =
         (if total_queries srv > 0
          then Some (real (unat (cache_hits srv + local_domain_hits srv)) / real (unat (total_queries srv)))
          else None),
       avg_response_time_ms =
         (if response_times srv \<noteq> [] then Some (sum_list sorted_times / real n) else None),
       p95_response_time_ms =
         (if response_times srv \<noteq> [] then Some (sorted_times ! min p95_idx (n - 1)) else None),
       p99_response_time_ms =
         (if response_times srv \<noteq> [] then Some (sorted_times ! min p99_idx (n - 1)) else None)\<rparr>)"

text \<open>\<open>FastDNSCache::Stats::hit_ratio\<close>, the ratio of the cache's own statistics.\<close>

definition hit_ratio :: "Stats \<Rightarrow> real" where
  "hit_ratio st =
     (if Stats.hits st + Stats.misses st > 0
      then real (unat (Stats.hits st)) / real (unat (Stats.hits st + Stats.misses st))
      else 0)"

text \<open>A server as constructed: empty cache, no local domain, counters at zero.\<close>

definition new_server :: DNSServer where
  "new_server =
     \<lparr>cache = new_cache, precompiled = [], total_queries = 0, cache_hits = 0,
      local_domain_hits = 0, response_times = []\<rparr>"

section \<open>Invariants and sample inputs\<close>

text \<open>
  The list and its index agree: no two nodes share a handle, and \<open>lru_map\<close> maps a domain to
  a handle exactly when the node with that handle is in the list and holds that domain.
\<close>

definition lru_consistent :: "Shard \<Rightarrow> bool" where
  "lru_consistent s \<longleftrightarrow>
     distinct (map fst (lru_list s)) \<and>
     (\<forall>h k. (h, k) \<in> set (lru_list s) \<longleftrightarrow> map_of (lru_map s) k = Some h)"

text \<open>The invariant of a shard, and the invariant with the bound on the number of entries.\<close>

definition shard_inv :: "Shard \<Rightarrow> bool" where
  "shard_inv s \<longleftrightarrow>
     distinct (map fst (entries s)) \<and> lru_consistent s \<and>
     fst ` set (entries s) = fst ` set (lru_map s)"

definition shard_ok :: "Shard \<Rightarrow> bool" where
  "shard_ok s \<longleftrightarrow> shard_inv s \<and> length (entries s) \<le> MAX_ENTRIES_PER_SHARD"

definition cache_ok :: "FastDNSCache \<Rightarrow> bool" where
  "cache_ok shards \<longleftrightarrow> (\<forall>i. shard_ok (shards i))"

text \<open>
  The keys of the entries that have expired at \<open>now\<close>, and the shard without them: what
  \<open>Shard::cleanup_expired\<close> computes on a shard that satisfies the invariant.
\<close>

definition expired_keys :: "time_point \<Rightarrow> (string \<times> CacheEntry) list \<Rightarrow> string set" where
  "expired_keys now es = set (map fst (filter (\<lambda>p. expiry (snd p) \<le> now) es))"

definition swept :: "time_point \<Rightarrow> Shard \<Rightarrow> Shard" where
  "swept now s =
     s\<lparr>entries := filter (\<lambda>p. now < expiry (snd p)) (entries s),
       lru_list := filter (\<lambda>n. snd n \<notin> expired_keys now (entries s)) (lru_list s),
       lru_map := filter (\<lambda>p. fst p \<notin> expired_keys now (entries s)) (lru_map s)\<rparr>"

text \<open>Sample inputs: a hash that sends every domain to shard 0, and a short run.\<close>

definition hash0 :: "string \<Rightarrow> 64 word" where
  "hash0 domain = 0"

definition demo_ops :: "cache_op list" where
  "demo_ops = [Set ''a.com'' ''1.2.3.4'' 300 0 0, Get ''a.com'' 5 5]"

text \<open>Shard 0 after the short run.\<close>

definition demo_shard :: Shard where
  "demo_shard =
     \<lparr>entries = [(''a.com'', \<lparr>ip = ''1.2.3.4'', expiry = 300000000000, hits = 1\<rparr>)],
      lru_list = [(1, ''a.com'')], lru_map = [(''a.com'', 1)],
      hits = 1, misses = 0, evictions = 0\<rparr>"

text \<open>
  A run that fills shard 0: \<open>n\<close> calls of \<open>set\<close> with \<open>n\<close> distinct domains, all at time 0 with a
  TTL of 300 s; \<open>filled n\<close> is shard 0 after it. \<open>shard0_summary\<close> reads the number of
  entries and the eviction counter of shard 0.
\<close>

definition key_of :: "nat \<Rightarrow> string" where
  "key_of n = replicate (Suc n) (CHR ''a'') @ ''.com''"

definition fill_ops :: "nat \<Rightarrow> cache_op list" where
  "fill_ops n = map (\<lambda>m. Set (key_of m) ''10.0.0.1'' 300 0 0) [0..<n]"

definition filled :: "nat \<Rightarrow> Shard" where
  "filled n =
     \<lparr>entries = map (\<lambda>m. (key_of m, CacheEntry_init ''10.0.0.1'' 300 0)) [0..<n],
      lru_list = map (\<lambda>m. (Suc m, key_of m)) (rev [0..<n]),
      lru_map = map (\<lambda>m. (key_of m, Suc m)) [0..<n],
      hits = 0, misses = 0, evictions = 0\<rparr>"

definition shard0_summary :: "FastDNSCache \<Rightarrow> nat \<times> 64 word" where
  "shard0_summary shards = (length (entries (shards 0)), evictions (shards 0))"

text \<open>A run in which an entry expires: \<open>b.com\<close> lives for one second, \<open>a.com\<close> for 300.\<close>

definition sweep_ops :: "cache_op list" where
  "sweep_ops = [Set ''b.com'' ''1.1.1.1'' 1 0 0, Set ''a.com'' ''1.2.3.4'' 300 0 0]"

section \<open>Compression pointer chains and sample datagrams\<close>

text \<open>
  \<open>chain_ends k data len offset\<close>: the name at \<open>offset\<close> is complete after at most \<open>k\<close>
  compression pointers, where each pointer is the first one of the name it is met in.
\<close>

fun chain_ends :: "nat \<Rightarrow> byte list \<Rightarrow> nat \<Rightarrow> nat \<Rightarrow> bool" where
  "chain_ends 0 data len offset = (first_pointer data len offset = None)"
| "chain_ends (Suc k) data len offset =
     (case first_pointer data len offset of
        None \<Rightarrow> True
      | Some p \<Rightarrow> chain_ends k data len (pointer_target data p))"

text \<open>
  Datagrams with a header (id \<open>0x1234\<close>, one question) and a name at offset 12:
  a pointer to itself; a pointer to the name \<open>a\<close> at offset 15; a pointer to a label of
  length 5 at offset 15, which overruns the 16 octets.
\<close>

definition cycle_packet :: "byte list" where
  "cycle_packet = [0x12, 0x34, 1, 0, 0, 1, 0, 0, 0, 0, 0, 0, 0xC0, 0x0C]"

definition pointer_packet :: "byte list" where
  "pointer_packet = [0x12, 0x34, 1, 0, 0, 1, 0, 0, 0, 0, 0, 0, 0xC0, 0x0F, 0, 1, 0x61, 0]"

definition overrun_packet :: "byte list" where
  "overrun_packet = [0x12, 0x34, 1, 0, 0, 1, 0, 0, 0, 0, 0, 0, 0xC0, 0x0F, 0, 5]"

section \<open>Question buffers\<close>

text \<open>
  The wire form of a name made of the given labels: each label behind its length octet,
  then the terminator; the labels joined by dots; and the two octets of a 16-bit value in
  network order.
\<close>

definition wire_name :: "string list \<Rightarrow> byte list" where
  "wire_name labels = concat (map encode_label labels) @ [0]"

fun join_labels :: "string list \<Rightarrow> string" where
  "join_labels [] = []"
| "join_labels [l] = l"
| "join_labels (l # ls) = l @ ''.'' @ join_labels ls"

definition be16 :: "16 word \<Rightarrow> byte list" where
  "be16 x = [ucast (drop_bit 8 x), ucast x]"

text \<open>What the loop of \<open>parse_domain_name\<close> makes of \<open>result\<close> when it reads the labels in turn.\<close>

fun append_labels :: "string \<Rightarrow> string list \<Rightarrow> string" where
  "append_labels result [] = result"
| "append_labels result (l # ls) =
     append_labels ((if result \<noteq> [] then result @ ''.'' else result) @ l) ls"

text \<open>
  Sample inputs: a header (id \<open>0x1234\<close>, one question); the question \<open>www.a\<close> A IN; a question
  whose single label is the three octets \<open>a.b\<close>.
\<close>

definition sample_header :: "byte list" where
  "sample_header = [0x12, 0x34, 1, 0, 0, 1, 0, 0, 0, 0, 0, 0]"

definition www_question :: "byte list" where
  "www_question = [3, 0x77, 0x77, 0x77, 1, 0x61, 0, 0, 1, 0, 1]"

definition dotted_question :: "byte list" where
  "dotted_question = [3, 0x61, 0x2E, 0x62, 0, 0, 1, 0, 1]"

section \<open>Sample queries\<close>

text \<open>
  A little-endian host whose resolver answers every domain with \<open>10.0.0.1\<close>; a clock at 0;
  the query \<open>a\<close> with \<open>qtype\<close> 1 (A) and \<open>qclass\<close> 3 (CH); the query \<open>a\<close> with \<open>qtype\<close> 28 (AAAA)
  and \<open>qclass\<close> 1 (IN). \<open>events_of\<close> keeps the lookups and datagrams of a call of
  \<open>handle_query\<close>.
\<close>

definition stub_platform :: platform where
  "stub_platform =
     \<lparr>little_endian = True, hash_string = hash0,
      inet_aton = (\<lambda>s. Some [10, 0, 0, 1]),
      resolve_upstream = (\<lambda>d. Some ''10.0.0.1'')\<rparr>"

definition stub_clock :: query_clock where
  "stub_clock =
     \<lparr>get_now = 0, get_now' = 0, set_now = 0, set_now' = 0, elapsed_us = 0, elapsed_ms = 0\<rparr>"

definition chaos_query :: "byte list" where
  "chaos_query = sample_header @ [1, 0x61, 0, 0, 1, 0, 3]"

definition aaaa_query :: "byte list" where
  "aaaa_query = sample_header @ [1, 0x61, 0, 0, 28, 0, 1]"

definition events_of :: "(fault + DNSServer \<times> event list) option \<Rightarrow> event list option" where
  "events_of r = (case r of Some (Inr (srv, evs)) \<Rightarrow> Some evs | _ \<Rightarrow> None)"

section \<open>Properties of the byte order operations\<close>

lemma byteswap16_mk16: "byteswap16 (mk16 a b) = mk16 b a"
  unfolding byteswap16_def mk16_def
  by (rule bit_word_eqI) (auto simp: bit_simps dest: bit_imp_le_length)

lemma ntohs_load16: "ntohs le (load16_host le b0 b1) = mk16 b0 b1"
  by (simp add: ntohs_def load16_host_def byteswap16_mk16)

lemma ucast_mk16_lo: "(ucast (mk16 a b) :: byte) = b"
  unfolding mk16_def
  by (rule bit_word_eqI) (auto simp: bit_simps dest: bit_imp_le_length)

lemma ucast_mk16_hi: "(ucast (drop_bit 8 (mk16 a b)) :: byte) = a"
  unfolding mk16_def
  by (rule bit_word_eqI) (auto simp: bit_simps dest: bit_imp_le_length)

lemma mk16_split: "mk16 (ucast (drop_bit 8 x)) (ucast x) = (x :: 16 word)"
  unfolding mk16_def
  by (rule bit_word_eqI) (auto simp: bit_simps dest: bit_imp_le_length)

lemma store16_load16: "store16_host le (load16_host le b0 b1) = [b0, b1]"
  by (simp add: store16_host_def load16_host_def ucast_mk16_lo ucast_mk16_hi)

lemma byteswap16_split: "byteswap16 x = mk16 (ucast x) (ucast (drop_bit 8 x))"
  unfolding mk16_def byteswap16_def
  by (rule bit_word_eqI) (auto simp: bit_simps dest: bit_imp_le_length)

lemma store16_htons: "store16_host le (htons le x) = [ucast (drop_bit 8 x), ucast x]"
  by (simp add: store16_host_def htons_def byteswap16_split ucast_mk16_lo ucast_mk16_hi)

section \<open>The shard operations keep the structures consistent\<close>


lemma list_erase_member:
  "(h, k) \<in> set l \<Longrightarrow> list_erase h l = Some (filter (\<lambda>n. fst n \<noteq> h) l)"
  by (force simp: list_erase_def)

lemma erase_by_index:
  assumes "lru_consistent s"
  shows "(case map_of (lru_map s) k of
            None \<Rightarrow> Some (lru_list s)
          | Some h \<Rightarrow> list_erase h (lru_list s)) =
         Some (filter (\<lambda>n. snd n \<noteq> k) (lru_list s))"
proof (cases "map_of (lru_map s) k")
  case None
  have "\<forall>n \<in> set (lru_list s). snd n \<noteq> k"
    using assms None by (auto simp: lru_consistent_def)
  then have f: "filter (\<lambda>n. snd n \<noteq> k) (lru_list s) = lru_list s"
    by simp
  show ?thesis using None by (simp add: f)
next
  case (Some h)
  then have m: "(h, k) \<in> set (lru_list s)"
    using assms by (simp add: lru_consistent_def)
  have "\<forall>n \<in> set (lru_list s). (fst n \<noteq> h) = (snd n \<noteq> k)"
  proof
    fix n assume n: "n \<in> set (lru_list s)"
    obtain h' k' where nk: "n = (h', k')" by (cases n)
    show "(fst n \<noteq> h) = (snd n \<noteq> k)"
      using assms n m Some nk unfolding lru_consistent_def
      by (metis eq_key_imp_eq_value fst_conv option.inject snd_conv)
  qed
  then have "filter (\<lambda>n. fst n \<noteq> h) (lru_list s) = filter (\<lambda>n. snd n \<noteq> k) (lru_list s)"
    by (simp cong: filter_cong)
  then show ?thesis using Some list_erase_member[OF m] by simp
qed

lemma lru_forget_closed:
  assumes "lru_consistent s"
  shows "lru_forget k s =
           Some (s\<lparr>lru_list := filter (\<lambda>n. snd n \<noteq> k) (lru_list s),
                   lru_map := AList.delete k (lru_map s)\<rparr>)"
proof (cases "map_of (lru_map s) k")
  case None
  then have "k \<notin> fst ` set (lru_map s)"
    by (simp add: map_of_eq_None_iff)
  then have d: "AList.delete k (lru_map s) = lru_map s"
    by (rule delete_id)
  show ?thesis using None erase_by_index[OF assms, of k] by (simp add: lru_forget_def d)
next
  case (Some h)
  then show ?thesis using erase_by_index[OF assms, of k] by (simp add: lru_forget_def)
qed

lemma map_of_filter_keys:
  "map_of (filter (\<lambda>p. fst p \<notin> X) al) k = (if k \<in> X then None else map_of al k)"
  by (induction al) auto

lemma lru_consistent_filter:
  assumes "lru_consistent s"
  shows "lru_consistent (s\<lparr>lru_list := filter (\<lambda>n. snd n \<notin> X) (lru_list s),
                            lru_map := filter (\<lambda>p. fst p \<notin> X) (lru_map s)\<rparr>)"
  using assms unfolding lru_consistent_def
  by (auto simp: distinct_map_filter map_of_filter_keys)

lemma lru_consistent_entries [simp]:
  "lru_consistent (s\<lparr>entries := es\<rparr>) = lru_consistent s"
  by (simp add: lru_consistent_def)

lemma delete_as_filter: "AList.delete k al = filter (\<lambda>p. fst p \<notin> {k}) al"
  by (induction al) auto

lemma expired_keys_Nil [simp]: "expired_keys now [] = {}"
  by (simp add: expired_keys_def)

lemma expired_keys_Cons [simp]:
  "expired_keys now ((k, e) # rest) =
     (if expiry e \<le> now then insert k (expired_keys now rest) else expired_keys now rest)"
  by (auto simp: expired_keys_def)

lemma cleanup_loop_closed:
  "lru_consistent s \<Longrightarrow>
   cleanup_loop now rest s =
     Some (s\<lparr>entries := filter (\<lambda>p. fst p \<notin> expired_keys now rest) (entries s),
             lru_list := filter (\<lambda>n. snd n \<notin> expired_keys now rest) (lru_list s),
             lru_map := filter (\<lambda>p. fst p \<notin> expired_keys now rest) (lru_map s)\<rparr>)"
proof (induction rest arbitrary: s)
  case Nil
  then show ?case by simp
next
  case (Cons p rest)
  obtain k e where p: "p = (k, e)" by (cases p)
  show ?case
  proof (cases "expiry e \<le> now")
    case False
    then show ?thesis using Cons p by simp
  next
    case True
    let ?s1 = "s\<lparr>lru_list := filter (\<lambda>n. snd n \<notin> {k}) (lru_list s),
                  lru_map := filter (\<lambda>p. fst p \<notin> {k}) (lru_map s)\<rparr>"
    have c1: "lru_consistent ?s1"
      by (rule lru_consistent_filter[OF Cons.prems])
    have f: "lru_forget k s = Some ?s1"
      using lru_forget_closed[OF Cons.prems, of k] by (simp add: delete_as_filter)
    have c2: "lru_consistent (?s1\<lparr>entries := AList.delete k (entries ?s1)\<rparr>)"
      using c1 by simp
    show ?thesis
      using True p f Cons.IH[OF c2]
      by (simp add: delete_as_filter conj_commute)
  qed
qed

lemma cleanup_expired_closed:
  assumes "lru_consistent s" "distinct (map fst (entries s))"
  shows "cleanup_expired now s =
     Some (s\<lparr>entries := filter (\<lambda>p. now < expiry (snd p)) (entries s),
             lru_list := filter (\<lambda>n. snd n \<notin> expired_keys now (entries s)) (lru_list s),
             lru_map := filter (\<lambda>p. fst p \<notin> expired_keys now (entries s)) (lru_map s)\<rparr>)"
proof -
  have "\<forall>p \<in> set (entries s). (fst p \<notin> expired_keys now (entries s)) = (now < expiry (snd p))"
  proof
    fix p assume p: "p \<in> set (entries s)"
    show "(fst p \<notin> expired_keys now (entries s)) = (now < expiry (snd p))"
    proof
      assume "fst p \<notin> expired_keys now (entries s)"
      then show "now < expiry (snd p)" using p by (force simp: expired_keys_def)
    next
      assume v: "now < expiry (snd p)"
      show "fst p \<notin> expired_keys now (entries s)"
      proof
        assume "fst p \<in> expired_keys now (entries s)"
        then obtain q where q: "q \<in> set (entries s)" "expiry (snd q) \<le> now" "fst q = fst p"
          by (auto simp: expired_keys_def)
        have "snd q = snd p"
          using eq_key_imp_eq_value[OF assms(2), of "fst p" "snd q" "snd p"] p q
          by (metis prod.collapse)
        then show False using q v by simp
      qed
    qed
  qed
  then have "filter (\<lambda>p. fst p \<notin> expired_keys now (entries s)) (entries s) =
             filter (\<lambda>p. now < expiry (snd p)) (entries s)"
    by (simp cong: filter_cong)
  then show ?thesis
    using cleanup_loop_closed[OF assms(1), of now "entries s"]
    by (simp add: cleanup_expired_def)
qed


lemma fresh_handle_gt: "h \<in> fst ` set l \<Longrightarrow> h < fresh_handle l"
proof -
  assume "h \<in> fst ` set l"
  then have "h \<le> Max (insert 0 (set (map fst l)))"
    by (intro Max_ge) auto
  then show ?thesis by (simp add: fresh_handle_def)
qed

lemma fresh_handle_notin: "fresh_handle l \<notin> fst ` set l"
  using fresh_handle_gt[of "fresh_handle l" l] by auto

lemma touch_lru_closed:
  assumes "lru_consistent s"
  shows "touch_lru d s =
     Some (s\<lparr>lru_list := push_front d (filter (\<lambda>n. snd n \<noteq> d) (lru_list s)),
             lru_map := AList.update d (fresh_handle (filter (\<lambda>n. snd n \<noteq> d) (lru_list s)))
                          (lru_map s)\<rparr>)"
  using erase_by_index[OF assms, of d] by (simp add: touch_lru_def)

lemma touch_lru_consistent:
  assumes "lru_consistent s"
  shows "lru_consistent
           (s\<lparr>lru_list := push_front d (filter (\<lambda>n. snd n \<noteq> d) (lru_list s)),
              lru_map := AList.update d (fresh_handle (filter (\<lambda>n. snd n \<noteq> d) (lru_list s)))
                          (lru_map s)\<rparr>)"
proof -
  let ?l = "filter (\<lambda>n. snd n \<noteq> d) (lru_list s)"
  have d: "distinct (map fst ?l)"
    using assms by (simp add: lru_consistent_def distinct_map_filter)
  have f: "fresh_handle ?l \<notin> fst ` set ?l"
    by (rule fresh_handle_notin)
  show ?thesis
    using assms d f unfolding lru_consistent_def push_front_def
    by (auto simp: update_conv')
qed

lemma length_delete_member:
  assumes "distinct (map fst al)" "k \<in> fst ` set al"
  shows "Suc (length (AList.delete k al)) = length al"
proof -
  have "length (AList.delete k al) = length (map fst (AList.delete k al))" by simp
  also have "\<dots> = length (removeAll k (map fst al))" by (simp only: delete_keys)
  also have "\<dots> = length (remove1 k (map fst al))"
    using assms(1) by (simp add: distinct_remove1_removeAll)
  also have "\<dots> = length al - 1"
    using assms(2) by (simp add: length_remove1)
  finally show ?thesis using assms(2) by (cases al) auto
qed

lemma set_butlast_distinct:
  assumes "distinct xs" "xs \<noteq> []"
  shows "set (butlast xs) = set xs - {last xs}"
proof -
  have "xs = butlast xs @ [last xs]" using assms(2) by simp
  then have "distinct (butlast xs @ [last xs])" "set xs = set (butlast xs @ [last xs])"
    using assms(1) by simp_all
  then show ?thesis by auto
qed

lemma evict_lru_inv:
  assumes "shard_inv s"
  shows "shard_inv (evict_lru s)"
proof (cases "length (entries s) \<ge> MAX_ENTRIES_PER_SHARD \<and> lru_list s \<noteq> []")
  case False
  then have "evict_lru s = s" by (auto simp: evict_lru_def)
  then show ?thesis using assms by simp
next
  case True
  obtain h oldest where lst: "last (lru_list s) = (h, oldest)" by (cases "last (lru_list s)")
  have c: "lru_consistent s" and de: "distinct (map fst (entries s))"
    and ks: "fst ` set (entries s) = fst ` set (lru_map s)"
    using assms by (simp_all add: shard_inv_def)
  have dl: "distinct (lru_list s)"
    using c by (auto simp: lru_consistent_def dest: distinct_map[THEN iffD1])
  have sb: "set (butlast (lru_list s)) = set (lru_list s) - {(h, oldest)}"
    using set_butlast_distinct[OF dl] True lst by simp
  have mo: "map_of (lru_map s) oldest = Some h"
    using c True lst last_in_set[of "lru_list s"] by (auto simp: lru_consistent_def)
  have "lru_consistent (s\<lparr>lru_list := butlast (lru_list s),
                          lru_map := AList.delete oldest (lru_map s)\<rparr>)"
    using c sb mo unfolding lru_consistent_def
    by (auto simp: delete_conv' distinct_butlast map_butlast)
  moreover have "fst ` set (AList.delete oldest (entries s)) =
                 fst ` set (AList.delete oldest (lru_map s))"
    using ks by (metis delete_keys list.set_map set_removeAll)
  ultimately show ?thesis
    using True lst de
    by (simp add: evict_lru_def shard_inv_def lru_consistent_def distinct_delete)
qed

lemma shard_inv_nonempty:
  assumes "shard_inv s" "entries s \<noteq> []"
  shows "lru_list s \<noteq> []"
proof -
  obtain k e where "(k, e) \<in> set (entries s)" using assms(2) by (cases "entries s") auto
  then have "k \<in> fst ` set (lru_map s)" using assms(1) by (force simp: shard_inv_def)
  then obtain h where "map_of (lru_map s) k = Some h"
    by (metis domD dom_map_of_conv_image_fst)
  then have "(h, k) \<in> set (lru_list s)" using assms(1) by (simp add: shard_inv_def lru_consistent_def)
  then show ?thesis by auto
qed

lemma evict_lru_size:
  assumes "shard_inv s" "length (entries s) \<le> MAX_ENTRIES_PER_SHARD"
  shows "length (entries (evict_lru s)) < MAX_ENTRIES_PER_SHARD"
proof (cases "length (entries s) \<ge> MAX_ENTRIES_PER_SHARD")
  case False
  then show ?thesis by (simp add: evict_lru_def)
next
  case True
  then have ne: "entries s \<noteq> []" by (auto simp: MAX_ENTRIES_PER_SHARD_def CACHE_SIZE_def NUM_SHARDS_def)
  have l: "lru_list s \<noteq> []" by (rule shard_inv_nonempty[OF assms(1) ne])
  obtain h oldest where lst: "last (lru_list s) = (h, oldest)" by (cases "last (lru_list s)")
  have "map_of (lru_map s) oldest = Some h"
    using assms(1) l lst last_in_set[of "lru_list s"] by (auto simp: shard_inv_def lru_consistent_def)
  then have "oldest \<in> fst ` set (entries s)"
    using assms(1) by (metis domI dom_map_of_conv_image_fst shard_inv_def)
  then have "Suc (length (AList.delete oldest (entries s))) = length (entries s)"
    using assms(1) by (intro length_delete_member) (simp_all add: shard_inv_def)
  then show ?thesis using True l lst assms(2) by (simp add: evict_lru_def)
qed


lemma entries_filter_expired:
  assumes "distinct (map fst es)"
  shows "filter (\<lambda>p. fst p \<notin> expired_keys now es) es = filter (\<lambda>p. now < expiry (snd p)) es"
proof -
  have "\<forall>p \<in> set es. (fst p \<notin> expired_keys now es) = (now < expiry (snd p))"
  proof
    fix p assume p: "p \<in> set es"
    show "(fst p \<notin> expired_keys now es) = (now < expiry (snd p))"
    proof
      assume "fst p \<notin> expired_keys now es"
      then show "now < expiry (snd p)" using p by (force simp: expired_keys_def)
    next
      assume v: "now < expiry (snd p)"
      show "fst p \<notin> expired_keys now es"
      proof
        assume "fst p \<in> expired_keys now es"
        then obtain q where q: "q \<in> set es" "expiry (snd q) \<le> now" "fst q = fst p"
          by (auto simp: expired_keys_def)
        have "snd q = snd p"
          using eq_key_imp_eq_value[OF assms, of "fst p" "snd q" "snd p"] p q
          by (metis prod.collapse)
        then show False using q v by simp
      qed
    qed
  qed
  then show ?thesis by (simp cong: filter_cong)
qed

lemma cleanup_expired_swept:
  assumes "shard_inv s"
  shows "cleanup_expired now s = Some (swept now s)"
  using cleanup_expired_closed[of s now] assms by (simp add: shard_inv_def swept_def)

lemma swept_inv:
  assumes "shard_inv s"
  shows "shard_inv (swept now s)"
proof -
  let ?X = "expired_keys now (entries s)"
  have de: "distinct (map fst (entries s))" and c: "lru_consistent s"
    and ks: "fst ` set (entries s) = fst ` set (lru_map s)"
    using assms by (simp_all add: shard_inv_def)
  have e: "filter (\<lambda>p. now < expiry (snd p)) (entries s) = filter (\<lambda>p. fst p \<notin> ?X) (entries s)"
    using entries_filter_expired[OF de, of now] by simp
  have "fst ` set (filter (\<lambda>p. fst p \<notin> ?X) (entries s)) =
        fst ` set (filter (\<lambda>p. fst p \<notin> ?X) (lru_map s))"
    using ks by force
  moreover have "lru_consistent (swept now s)"
    using lru_consistent_filter[OF c, of ?X] by (simp add: swept_def lru_consistent_def)
  ultimately show ?thesis
    using de e by (simp add: shard_inv_def swept_def distinct_map_filter)
qed

lemma swept_length: "length (entries (swept now s)) \<le> length (entries s)"
  by (simp add: swept_def)

lemma swept_ok: "shard_ok s \<Longrightarrow> shard_ok (swept now s)"
  using swept_inv[of s now] swept_length[of now s] by (simp add: shard_ok_def)

lemma swept_valid: "p \<in> set (entries (swept now s)) \<Longrightarrow> now < expiry (snd p)"
  by (simp add: swept_def)

lemma length_update:
  "length (AList.update k v al) = (if k \<in> fst ` set al then length al else Suc (length al))"
  by (induction al) auto

lemma shard_inv_update_touch:
  assumes "shard_inv s" "lru_list s1 = lru_list s" "lru_map s1 = lru_map s"
    "entries s1 = AList.update d e (entries s)"
  shows "\<exists>s'. touch_lru d s1 = Some s' \<and>
              shard_inv s' \<and> entries s' = AList.update d e (entries s) \<and>
              map snd (lru_list s') = d # filter (\<lambda>k. k \<noteq> d) (map snd (lru_list s)) \<and>
              hits s' = hits s1 \<and> misses s' = misses s1 \<and> evictions s' = evictions s1"
proof -
  let ?l = "filter (\<lambda>n. snd n \<noteq> d) (lru_list s1)"
  let ?s' = "s1\<lparr>lru_list := push_front d ?l,
                 lru_map := AList.update d (fresh_handle ?l) (lru_map s1)\<rparr>"
  have c: "lru_consistent s1" using assms by (simp add: shard_inv_def lru_consistent_def)
  have t: "touch_lru d s1 = Some ?s'"
    using touch_lru_closed[OF c, of d] by simp
  have c': "lru_consistent ?s'"
    using touch_lru_consistent[OF c, of d] by simp
  have ks: "fst ` set (AList.update d e (entries s)) =
            fst ` set (AList.update d (fresh_handle ?l) (lru_map s1))"
    using assms by (simp add: shard_inv_def dom_update)
  have "shard_inv ?s'"
    using assms c' ks by (simp add: shard_inv_def distinct_update)
  moreover have "map snd (lru_list ?s') = d # filter (\<lambda>k. k \<noteq> d) (map snd (lru_list s))"
    using assms(2) by (simp add: push_front_def filter_map comp_def)
  ultimately show ?thesis using t assms(4) by simp
qed

lemma shard_set_ok:
  assumes "shard_ok s"
  shows "\<exists>s'. shard_set now now' d ip_addr ttl s = Some s' \<and> shard_ok s'"
proof -
  let ?s1 = "swept now s"
  let ?s2 = "evict_lru ?s1"
  have ok1: "shard_ok ?s1" by (rule swept_ok[OF assms])
  have i2: "shard_inv ?s2" using ok1 evict_lru_inv by (simp add: shard_ok_def)
  have l2: "length (entries ?s2) < MAX_ENTRIES_PER_SHARD"
    using ok1 evict_lru_size by (simp add: shard_ok_def)
  obtain s' where s': "touch_lru d (?s2\<lparr>entries := AList.update d (CacheEntry_init ip_addr ttl now') (entries ?s2)\<rparr>) = Some s'"
    "shard_inv s'" "entries s' = AList.update d (CacheEntry_init ip_addr ttl now') (entries ?s2)"
    using shard_inv_update_touch[OF i2, of "?s2\<lparr>entries := AList.update d (CacheEntry_init ip_addr ttl now') (entries ?s2)\<rparr>" d]
    by auto
  have "length (entries s') \<le> MAX_ENTRIES_PER_SHARD"
    using s'(3) l2 by (simp add: length_update)
  then show ?thesis
    using s' cleanup_expired_swept[of s now] assms
    by (simp add: shard_set_def shard_ok_def)
qed


lemma lru_forget_inv:
  assumes "shard_inv s"
  shows "\<exists>s1. lru_forget d s = Some s1 \<and>
           shard_inv (s1\<lparr>entries := AList.delete d (entries s1), misses := misses s1 + 1\<rparr>) \<and>
           entries s1 = entries s \<and> evictions s1 = evictions s"
proof -
  let ?s1 = "s\<lparr>lru_list := filter (\<lambda>n. snd n \<notin> {d}) (lru_list s),
                lru_map := filter (\<lambda>p. fst p \<notin> {d}) (lru_map s)\<rparr>"
  have c: "lru_consistent s" using assms by (simp add: shard_inv_def)
  have f: "lru_forget d s = Some ?s1"
    using lru_forget_closed[OF c, of d] by (simp add: delete_as_filter)
  have c1: "lru_consistent ?s1" by (rule lru_consistent_filter[OF c])
  have "fst ` set (AList.delete d (entries s)) = fst ` set (filter (\<lambda>p. fst p \<notin> {d}) (lru_map s))"
    using assms by (force simp: shard_inv_def delete_as_filter)
  then have "shard_inv (?s1\<lparr>entries := AList.delete d (entries ?s1), misses := misses ?s1 + 1\<rparr>)"
    using assms c1 by (simp add: shard_inv_def distinct_delete lru_consistent_def)
  then show ?thesis using f by simp
qed

lemma shard_get_ok:
  assumes "shard_ok s"
  shows "\<exists>r s'. shard_get now now' d s = Some (r, s') \<and> shard_ok s'"
proof -
  let ?s1 = "swept now s"
  have ok1: "shard_ok ?s1" by (rule swept_ok[OF assms])
  have cl: "cleanup_expired now s = Some ?s1"
    using assms by (simp add: cleanup_expired_swept shard_ok_def)
  show ?thesis
  proof (cases "map_of (entries ?s1) d")
    case None
    have "shard_ok (?s1\<lparr>misses := misses ?s1 + 1\<rparr>)"
      using ok1 by (simp add: shard_ok_def shard_inv_def lru_consistent_def)
    then show ?thesis using None cl by (simp add: shard_get_def)
  next
    case (Some e)
    show ?thesis
    proof (cases "is_valid now' e")
      case True
      let ?e' = "e\<lparr>CacheEntry.hits := CacheEntry.hits e + 1\<rparr>"
      let ?s2 = "?s1\<lparr>entries := AList.update d ?e' (entries ?s1), hits := hits ?s1 + 1\<rparr>"
      have i1: "shard_inv ?s1" using ok1 by (simp add: shard_ok_def)
      obtain s' where s': "touch_lru d ?s2 = Some s'"
        "shard_inv s'" "entries s' = AList.update d ?e' (entries ?s1)"
        using shard_inv_update_touch[OF i1, of ?s2 d ?e'] by auto
      have "d \<in> fst ` set (entries ?s1)" using Some by (metis domI dom_map_of_conv_image_fst)
      then have "length (entries s') = length (entries ?s1)"
        using s'(3) by (simp add: length_update)
      then have "shard_ok s'" using s'(2) ok1 by (simp add: shard_ok_def)
      then show ?thesis using Some True cl s'(1) by (simp add: shard_get_def)
    next
      case False
      obtain s2 where s2: "lru_forget d ?s1 = Some s2"
        "shard_inv (s2\<lparr>entries := AList.delete d (entries s2), misses := misses s2 + 1\<rparr>)"
        "entries s2 = entries ?s1"
        using lru_forget_inv[of ?s1 d] ok1 by (auto simp: shard_ok_def)
      have "length (AList.delete d (entries s2)) \<le> length (entries ?s1)"
        using s2(3) by (simp add: length_delete_le)
      then have "shard_ok (s2\<lparr>entries := AList.delete d (entries s2), misses := misses s2 + 1\<rparr>)"
        using s2(2) ok1 by (simp add: shard_ok_def)
      then show ?thesis using Some False cl s2(1) by (simp add: shard_get_def)
    qed
  qed
qed





lemma evict_lru_evictions:
  "evictions (evict_lru s) = evictions s \<or> evictions (evict_lru s) = evictions s + 1"
  by (simp add: evict_lru_def Let_def)

lemma evict_lru_counters:
  "hits (evict_lru s) = hits s \<and> misses (evict_lru s) = misses s"
  by (simp add: evict_lru_def Let_def)

lemma swept_counters:
  "hits (swept now s) = hits s \<and> misses (swept now s) = misses s \<and>
   evictions (swept now s) = evictions s"
  by (simp add: swept_def)

lemma shard_set_char:
  assumes "shard_inv s"
  shows "\<exists>s'. shard_set now now' d ip_addr ttl s = Some s' \<and> shard_inv s' \<and>
           entries s' = AList.update d (CacheEntry_init ip_addr ttl now')
                          (entries (evict_lru (swept now s))) \<and>
           map snd (lru_list s') =
             d # filter (\<lambda>k. k \<noteq> d) (map snd (lru_list (evict_lru (swept now s)))) \<and>
           hits s' = hits s \<and> misses s' = misses s \<and>
           evictions s' = evictions (evict_lru (swept now s))"
proof -
  let ?s2 = "evict_lru (swept now s)"
  let ?e = "CacheEntry_init ip_addr ttl now'"
  have i2: "shard_inv ?s2" using assms swept_inv evict_lru_inv by blast
  obtain s' where s': "touch_lru d (?s2\<lparr>entries := AList.update d ?e (entries ?s2)\<rparr>) = Some s'"
    "shard_inv s'" "entries s' = AList.update d ?e (entries ?s2)"
    "map snd (lru_list s') = d # filter (\<lambda>k. k \<noteq> d) (map snd (lru_list ?s2))"
    "hits s' = hits ?s2" "misses s' = misses ?s2" "evictions s' = evictions ?s2"
    using shard_inv_update_touch[OF i2, of "?s2\<lparr>entries := AList.update d ?e (entries ?s2)\<rparr>" d ?e]
    by auto
  have "shard_set now now' d ip_addr ttl s = Some s'"
    using s'(1) cleanup_expired_swept[OF assms, of now] by (simp add: shard_set_def)
  then show ?thesis
    using s' evict_lru_counters[of "swept now s"] swept_counters[of now s] by simp
qed

lemma map_of_filter_values:
  "distinct (map fst al) \<Longrightarrow>
   map_of (filter (\<lambda>p. P (snd p)) al) k =
     (case map_of al k of None \<Rightarrow> None | Some v \<Rightarrow> if P v then Some v else None)"
proof (induction al)
  case Nil
  then show ?case by simp
next
  case (Cons p al)
  obtain k' v' where p: "p = (k', v')" by (cases p)
  have "k' \<notin> fst ` set al" using Cons.prems p by auto
  then have n: "map_of al k' = None" by (simp add: map_of_eq_None_iff)
  show ?case using Cons p n by (auto split: option.splits)
qed

lemma map_of_swept:
  assumes "shard_inv s"
  shows "map_of (entries (swept now s)) d =
     (case map_of (entries s) d of None \<Rightarrow> None
      | Some e \<Rightarrow> if now < expiry e then Some e else None)"
  using assms map_of_filter_values[of "entries s" "\<lambda>e. now < expiry e" d]
  by (simp add: swept_def shard_inv_def)

lemma shard_get_char:
  assumes "shard_inv s"
  shows "\<exists>r s'. shard_get now now' d s = Some (r, s') \<and> shard_inv s' \<and>
           length (entries s') \<le> length (entries s) \<and>
           evictions s' = evictions s \<and>
           r = (case map_of (entries s) d of
                  None \<Rightarrow> None
                | Some e \<Rightarrow> if now < expiry e \<and> now' < expiry e then Some (ip e) else None) \<and>
           (r = None \<longrightarrow> map_of (entries s') d = None)"
proof -
  let ?s1 = "swept now s"
  have i1: "shard_inv ?s1" by (rule swept_inv[OF assms])
  have l1: "length (entries ?s1) \<le> length (entries s)" by (rule swept_length)
  have cl: "cleanup_expired now s = Some ?s1"
    using assms by (simp add: cleanup_expired_swept)
  have ms: "map_of (entries ?s1) d =
     (case map_of (entries s) d of None \<Rightarrow> None
      | Some e \<Rightarrow> if now < expiry e then Some e else None)"
    by (rule map_of_swept[OF assms])
  show ?thesis
  proof (cases "map_of (entries ?s1) d")
    case None
    have "shard_inv (?s1\<lparr>misses := misses ?s1 + 1\<rparr>)"
      using i1 by (simp add: shard_inv_def lru_consistent_def)
    moreover have "(case map_of (entries s) d of None \<Rightarrow> None
        | Some e \<Rightarrow> if now < expiry e \<and> now' < expiry e then Some (ip e) else None) = None"
      using None ms by (auto split: option.splits if_splits)
    ultimately show ?thesis
      using None cl l1 swept_counters[of now s] by (simp add: shard_get_def)
  next
    case (Some e)
    then have me: "map_of (entries s) d = Some e" "now < expiry e"
      using ms by (auto split: option.splits if_splits)
    show ?thesis
    proof (cases "is_valid now' e")
      case True
      let ?e' = "e\<lparr>CacheEntry.hits := CacheEntry.hits e + 1\<rparr>"
      let ?s2 = "?s1\<lparr>entries := AList.update d ?e' (entries ?s1), hits := hits ?s1 + 1\<rparr>"
      obtain s' where s': "touch_lru d ?s2 = Some s'"
        "shard_inv s'" "entries s' = AList.update d ?e' (entries ?s1)"
        "evictions s' = evictions ?s2"
        using shard_inv_update_touch[OF i1, of ?s2 d ?e'] by auto
      have "d \<in> fst ` set (entries ?s1)" using Some by (metis domI dom_map_of_conv_image_fst)
      then have "length (entries s') = length (entries ?s1)"
        using s'(3) by (simp add: length_update)
      then show ?thesis
        using Some True cl s' l1 me swept_counters[of now s]
        by (simp add: shard_get_def is_valid_def)
    next
      case False
      obtain s2 where s2: "lru_forget d ?s1 = Some s2"
        "shard_inv (s2\<lparr>entries := AList.delete d (entries s2), misses := misses s2 + 1\<rparr>)"
        "entries s2 = entries ?s1" "evictions s2 = evictions ?s1"
        using lru_forget_inv[OF i1, of d] by auto
      have "length (AList.delete d (entries s2)) \<le> length (entries ?s1)"
        using s2(3) by (simp add: length_delete_le)
      then show ?thesis
        using Some False cl s2 l1 me swept_counters[of now s]
        by (simp add: shard_get_def is_valid_def delete_conv')
    qed
  qed
qed




lemma get_shard_index_less: "get_shard_index hash d < NUM_SHARDS"
proof -
  have "hash d AND 15 \<le> (15 :: 64 word)" by (rule word_and_le1)
  then have "unat (hash d AND 15) \<le> unat (15 :: 64 word)" by (simp add: word_le_nat_alt)
  then show ?thesis by (simp add: get_shard_index_def NUM_SHARDS_def)
qed

lemma new_cache_ok: "cache_ok new_cache"
  by (simp add: cache_ok_def new_cache_def shard_ok_def shard_inv_def lru_consistent_def
      empty_shard_def)

lemma cache_ok_upd: "cache_ok c \<Longrightarrow> shard_ok s \<Longrightarrow> cache_ok (c(i := s))"
  by (simp add: cache_ok_def)

lemma cache_get_ok:
  assumes "cache_ok c"
  shows "\<exists>r c'. cache_get hash now now' d c = Some (r, c') \<and> cache_ok c'"
proof -
  obtain r s' where "shard_get now now' d (c (get_shard_index hash d)) = Some (r, s')" "shard_ok s'"
    using shard_get_ok[of "c (get_shard_index hash d)" now now' d] assms
    by (auto simp: cache_ok_def)
  then show ?thesis using assms by (simp add: cache_get_def cache_ok_upd)
qed

lemma cache_set_ok:
  assumes "cache_ok c"
  shows "\<exists>c'. cache_set hash now now' d ip_addr ttl c = Some c' \<and> cache_ok c'"
proof -
  obtain s' where "shard_set now now' d ip_addr ttl (c (get_shard_index hash d)) = Some s'" "shard_ok s'"
    using shard_set_ok[of "c (get_shard_index hash d)" now now' d ip_addr ttl] assms
    by (auto simp: cache_ok_def)
  then show ?thesis using assms by (simp add: cache_set_def cache_ok_upd)
qed

lemma cleanup_shards_ok:
  "cache_ok c \<Longrightarrow> \<exists>c'. cleanup_shards clock idxs c = Some c' \<and> cache_ok c'"
proof (induction idxs arbitrary: c)
  case Nil
  then show ?case by simp
next
  case (Cons i idxs)
  have "shard_ok (c i)" using Cons.prems by (simp add: cache_ok_def)
  then have sw: "cleanup_expired (clock i) (c i) = Some (swept (clock i) (c i))"
    "shard_ok (swept (clock i) (c i))"
    using swept_ok[of "c i" "clock i"] by (simp_all add: cleanup_expired_swept shard_ok_def)
  have ok': "cache_ok (c(i := swept (clock i) (c i)))"
    using Cons.prems sw(2) by (rule cache_ok_upd)
  from Cons.IH[OF ok'] obtain c' where
    c': "cleanup_shards clock idxs (c(i := swept (clock i) (c i))) = Some c'" "cache_ok c'"
    by blast
  have "cleanup_shards clock (i # idxs) c = Some c'" using sw(1) c'(1) by simp
  then show ?case using c'(2) by blast
qed

lemma apply_op_ok:
  assumes "cache_ok c"
  shows "\<exists>c'. apply_op hash op c = Some c' \<and> cache_ok c'"
proof (cases op)
  case (Get d now now')
  then show ?thesis using cache_get_ok[OF assms, of hash now now' d] by auto
next
  case (Set d ip_addr ttl now now')
  then show ?thesis using cache_set_ok[OF assms, of hash now now' d ip_addr ttl] by auto
next
  case (CleanupExpired clock)
  then show ?thesis using cleanup_shards_ok[OF assms, of clock "[0..<NUM_SHARDS]"]
    by (auto simp: cache_cleanup_expired_def)
qed

lemma run_ok:
  "cache_ok c \<Longrightarrow> \<exists>c'. run hash ops c = Some c' \<and> cache_ok c'"
proof (induction ops arbitrary: c)
  case Nil
  then show ?case by simp
next
  case (Cons op ops)
  obtain c1 where "apply_op hash op c = Some c1" "cache_ok c1"
    using apply_op_ok[OF Cons.prems, of hash op] by auto
  then show ?case using Cons.IH[of c1] by simp
qed

lemma reachable_ok: "\<exists>c. run hash ops new_cache = Some c \<and> cache_ok c"
  by (rule run_ok[OF new_cache_ok])

lemma size_entries_fold:
  "size_entries (fold (\<lambda>i stats.
        stats\<lparr>Stats.hits := Stats.hits stats + Shard.hits (shards i),
              Stats.misses := Stats.misses stats + Shard.misses (shards i),
              Stats.evictions := Stats.evictions stats + Shard.evictions (shards i),
              size_entries := size_entries stats + length (entries (shards i))\<rparr>) idxs st) =
   size_entries st + sum_list (map (\<lambda>i. length (entries (shards i))) idxs)"
  by (induction idxs arbitrary: st) simp_all

lemma sum_list_bounded: "(\<forall>i \<in> set idxs. f i \<le> (b::nat)) \<Longrightarrow> sum_list (map f idxs) \<le> length idxs * b"
  by (induction idxs) auto

lemma get_stats_size:
  assumes "cache_ok c"
  shows "size_entries (get_stats c) \<le> 8192"
proof -
  have "\<forall>i \<in> set [0..<NUM_SHARDS]. length (entries (c i)) \<le> MAX_ENTRIES_PER_SHARD"
    using assms by (simp add: cache_ok_def shard_ok_def)
  then have "sum_list (map (\<lambda>i. length (entries (c i))) [0..<NUM_SHARDS])
               \<le> length [0..<NUM_SHARDS] * MAX_ENTRIES_PER_SHARD"
    by (rule sum_list_bounded)
  then show ?thesis
    by (simp add: get_stats_def size_entries_fold NUM_SHARDS_def MAX_ENTRIES_PER_SHARD_def CACHE_SIZE_def)
qed




lemmas cache_eval =
  cache_set_def cache_get_def shard_set_def shard_get_def cleanup_expired_def evict_lru_def
  touch_lru_def lru_forget_def list_erase_def is_valid_def
  get_shard_index_def hash0_def new_cache_def empty_shard_def push_front_def fresh_handle_def
  CacheEntry_init_def seconds_def MAX_ENTRIES_PER_SHARD_def CACHE_SIZE_def NUM_SHARDS_def

section \<open>Invariants of the cache\<close>

text \<open>
  Claim C5. After every run of public operations (\<open>get\<close>, \<open>set\<close>, \<open>cleanup_expired\<close>) on a
  new cache the run is defined and, in every shard, the entries, the LRU index and the LRU
  list have the same set of keys, no two nodes of the list share a handle, and the index
  maps every key to the handle of a node that is at some position of the list and holds
  that key.
\<close>

theorem lru_structures_agree:
  "\<exists>c. run hash ops new_cache = Some c \<and>
     (\<forall>i<NUM_SHARDS.
        fst ` set (entries (c i)) = fst ` set (lru_map (c i)) \<and>
        fst ` set (lru_map (c i)) = snd ` set (lru_list (c i)) \<and>
        distinct (map fst (lru_list (c i))) \<and>
        (\<forall>k\<in>fst ` set (entries (c i)). \<exists>h n.
            map_of (lru_map (c i)) k = Some h \<and>
            n < length (lru_list (c i)) \<and> lru_list (c i) ! n = (h, k)))"
proof -
  obtain c where c: "run hash ops new_cache = Some c" "cache_ok c"
    using reachable_ok by blast
  have "fst ` set (entries (c i)) = fst ` set (lru_map (c i)) \<and>
        fst ` set (lru_map (c i)) = snd ` set (lru_list (c i)) \<and>
        distinct (map fst (lru_list (c i))) \<and>
        (\<forall>k\<in>fst ` set (entries (c i)). \<exists>h n.
            map_of (lru_map (c i)) k = Some h \<and>
            n < length (lru_list (c i)) \<and> lru_list (c i) ! n = (h, k))" for i
  proof -
    have inv: "shard_inv (c i)" using c(2) by (simp add: cache_ok_def shard_ok_def)
    then have ks: "fst ` set (entries (c i)) = fst ` set (lru_map (c i))"
      and dh: "distinct (map fst (lru_list (c i)))"
      and lm: "\<And>h k. (h, k) \<in> set (lru_list (c i)) \<longleftrightarrow> map_of (lru_map (c i)) k = Some h"
      by (simp_all add: shard_inv_def lru_consistent_def)
    have "snd ` set (lru_list (c i)) = dom (map_of (lru_map (c i)))"
      using lm by (force simp: dom_def)
    then have kl: "fst ` set (lru_map (c i)) = snd ` set (lru_list (c i))"
      by (simp add: dom_map_of_conv_image_fst)
    have "\<exists>h n. map_of (lru_map (c i)) k = Some h \<and>
            n < length (lru_list (c i)) \<and> lru_list (c i) ! n = (h, k)"
      if "k \<in> fst ` set (entries (c i))" for k
    proof -
      have "k \<in> dom (map_of (lru_map (c i)))"
        using that ks by (simp add: dom_map_of_conv_image_fst)
      then obtain h where h: "map_of (lru_map (c i)) k = Some h" by auto
      then have "(h, k) \<in> set (lru_list (c i))" using lm by simp
      then obtain n where "n < length (lru_list (c i))" "lru_list (c i) ! n = (h, k)"
        by (auto simp: in_set_conv_nth)
      then show ?thesis using h by blast
    qed
    then show ?thesis using ks kl dh by blast
  qed
  then show ?thesis using c(1) by blast
qed

text \<open>The sample run, evaluated.\<close>

lemma run_demo_ops: "run hash0 demo_ops new_cache = Some (new_cache(0 := demo_shard))"
  by (simp add: demo_ops_def demo_shard_def cache_eval)

theorem lru_structures_agree_witness:
  "\<exists>c h n. run hash0 demo_ops new_cache = Some c \<and>
     (0::nat) < NUM_SHARDS \<and> ''a.com'' \<in> fst ` set (entries (c 0)) \<and>
     map_of (lru_map (c 0)) ''a.com'' = Some h \<and>
     n < length (lru_list (c 0)) \<and> lru_list (c 0) ! n = (h, ''a.com'')"
proof -
  from lru_structures_agree[of hash0 demo_ops]
  obtain c where cq: "run hash0 demo_ops new_cache = Some c \<and>
     (\<forall>i<NUM_SHARDS.
        fst ` set (entries (c i)) = fst ` set (lru_map (c i)) \<and>
        fst ` set (lru_map (c i)) = snd ` set (lru_list (c i)) \<and>
        distinct (map fst (lru_list (c i))) \<and>
        (\<forall>k\<in>fst ` set (entries (c i)). \<exists>h n.
            map_of (lru_map (c i)) k = Some h \<and>
            n < length (lru_list (c i)) \<and> lru_list (c i) ! n = (h, k)))" ..
  then have c: "run hash0 demo_ops new_cache = Some c" ..
  have z: "(0::nat) < NUM_SHARDS" by (simp add: NUM_SHARDS_def)
  have "entries (c 0) = [(''a.com'', \<lparr>ip = ''1.2.3.4'', expiry = 300000000000, hits = 1\<rparr>)]"
    using c run_demo_ops by (auto simp: demo_shard_def)
  then have m: "''a.com'' \<in> fst ` set (entries (c 0))" by simp
  from cq z have "\<forall>k\<in>fst ` set (entries (c 0)). \<exists>h n.
            map_of (lru_map (c 0)) k = Some h \<and>
            n < length (lru_list (c 0)) \<and> lru_list (c 0) ! n = (h, k)"
    by blast
  then have "\<exists>h n. map_of (lru_map (c 0)) ''a.com'' = Some h \<and>
            n < length (lru_list (c 0)) \<and> lru_list (c 0) ! n = (h, ''a.com'')"
    using m by (rule bspec)
  then show ?thesis using c z m by blast
qed



lemma cache_set_char:
  assumes "cache_ok c"
  shows "\<exists>c'. cache_set hash now now' d ip_addr ttl c = Some c' \<and> cache_ok c' \<and>
     (evictions (c' (get_shard_index hash d)) = evictions (c (get_shard_index hash d)) \<or>
      evictions (c' (get_shard_index hash d)) = evictions (c (get_shard_index hash d)) + 1)"
proof -
  let ?i = "get_shard_index hash d"
  have ok: "shard_ok (c ?i)" using assms by (simp add: cache_ok_def)
  then have inv: "shard_inv (c ?i)" by (simp add: shard_ok_def)
  obtain s' where s': "shard_set now now' d ip_addr ttl (c ?i) = Some s'"
    "evictions s' = evictions (evict_lru (swept now (c ?i)))"
    using shard_set_char[OF inv, of now now' d ip_addr ttl] by blast
  obtain s'' where s'': "shard_set now now' d ip_addr ttl (c ?i) = Some s''" "shard_ok s''"
    using shard_set_ok[OF ok, of now now' d ip_addr ttl] by blast
  have ok': "shard_ok s'" using s'(1) s'' by simp
  have ev: "evictions s' = evictions (c ?i) \<or> evictions s' = evictions (c ?i) + 1"
    using s'(2) evict_lru_evictions[of "swept now (c ?i)"] swept_counters[of now "c ?i"] by simp
  have "cache_set hash now now' d ip_addr ttl c = Some (c(?i := s'))"
    using s'(1) by (simp add: cache_set_def)
  moreover have "cache_ok (c(?i := s'))" using assms ok' by (rule cache_ok_upd)
  ultimately show ?thesis using ev by simp
qed

text \<open>
  Claim C4. After every run of public operations on a new cache, each shard holds at most
  \<open>MAX_ENTRIES_PER_SHARD\<close> = 512 entries and the size that \<open>get_stats\<close> reports is at most
  8192; a \<open>set\<close> in such a state is defined, raises the eviction counter of its shard by at
  most one, and leaves the shard within the bound.
\<close>

theorem shard_size_bounded:
  "\<exists>c. run hash ops new_cache = Some c \<and>
     (\<forall>i<NUM_SHARDS. length (entries (c i)) \<le> MAX_ENTRIES_PER_SHARD) \<and>
     MAX_ENTRIES_PER_SHARD = 512 \<and>
     size_entries (get_stats c) \<le> 8192 \<and>
     (\<forall>d ip_addr ttl now now'. \<exists>c'.
        cache_set hash now now' d ip_addr ttl c = Some c' \<and>
        (evictions (c' (get_shard_index hash d)) = evictions (c (get_shard_index hash d)) \<or>
         evictions (c' (get_shard_index hash d)) = evictions (c (get_shard_index hash d)) + 1) \<and>
        length (entries (c' (get_shard_index hash d))) \<le> MAX_ENTRIES_PER_SHARD)"
proof -
  obtain c where c: "run hash ops new_cache = Some c" "cache_ok c"
    using reachable_ok by blast
  have b: "\<forall>i<NUM_SHARDS. length (entries (c i)) \<le> MAX_ENTRIES_PER_SHARD"
    using c(2) by (simp add: cache_ok_def shard_ok_def)
  have m: "MAX_ENTRIES_PER_SHARD = 512"
    by (simp add: MAX_ENTRIES_PER_SHARD_def CACHE_SIZE_def NUM_SHARDS_def)
  have t: "size_entries (get_stats c) \<le> 8192" by (rule get_stats_size[OF c(2)])
  have s: "\<exists>c'. cache_set hash now now' d ip_addr ttl c = Some c' \<and>
        (evictions (c' (get_shard_index hash d)) = evictions (c (get_shard_index hash d)) \<or>
         evictions (c' (get_shard_index hash d)) = evictions (c (get_shard_index hash d)) + 1) \<and>
        length (entries (c' (get_shard_index hash d))) \<le> MAX_ENTRIES_PER_SHARD"
    for d ip_addr ttl now now'
  proof -
    obtain c' where c': "cache_set hash now now' d ip_addr ttl c = Some c'" "cache_ok c'"
      "evictions (c' (get_shard_index hash d)) = evictions (c (get_shard_index hash d)) \<or>
       evictions (c' (get_shard_index hash d)) = evictions (c (get_shard_index hash d)) + 1"
      using cache_set_char[OF c(2), of hash now now' d ip_addr ttl] by blast
    have "length (entries (c' (get_shard_index hash d))) \<le> MAX_ENTRIES_PER_SHARD"
      using c'(2) by (simp add: cache_ok_def shard_ok_def)
    then show ?thesis using c'(1,3) by blast
  qed
  show ?thesis using c(1) b m t s by blast
qed

theorem shard_size_bounded_witness:
  "\<exists>c. run hash0 demo_ops new_cache = Some c \<and> (0::nat) < NUM_SHARDS \<and>
       length (entries (c 0)) \<le> MAX_ENTRIES_PER_SHARD"
proof -
  from shard_size_bounded[of hash0 demo_ops]
  obtain c where c: "run hash0 demo_ops new_cache = Some c"
    and b: "\<forall>i<NUM_SHARDS. length (entries (c i)) \<le> MAX_ENTRIES_PER_SHARD"
    by blast
  have z: "(0::nat) < NUM_SHARDS" by (simp add: NUM_SHARDS_def)
  then have "length (entries (c 0)) \<le> MAX_ENTRIES_PER_SHARD" using b by blast
  then show ?thesis using c z by blast
qed



lemma set_update_subset: "set (AList.update k v al) \<subseteq> insert (k, v) (set al)"
  by (induction al) auto

lemma set_delete_subset: "set (AList.delete k al) \<subseteq> set al"
  by (induction al) auto

lemma shard_get_entries:
  assumes "shard_inv s"
  shows "\<exists>r s'. shard_get now now' d s = Some (r, s') \<and>
           entries s' =
             (case map_of (entries (swept now s)) d of
                None \<Rightarrow> entries (swept now s)
              | Some e \<Rightarrow>
                  if now' < expiry e
                  then AList.update d (e\<lparr>CacheEntry.hits := CacheEntry.hits e + 1\<rparr>) (entries (swept now s))
                  else AList.delete d (entries (swept now s)))"
proof -
  let ?s1 = "swept now s"
  have i1: "shard_inv ?s1" by (rule swept_inv[OF assms])
  have cl: "cleanup_expired now s = Some ?s1"
    using assms by (simp add: cleanup_expired_swept)
  show ?thesis
  proof (cases "map_of (entries ?s1) d")
    case None
    then show ?thesis using cl by (simp add: shard_get_def)
  next
    case (Some e)
    show ?thesis
    proof (cases "is_valid now' e")
      case True
      let ?e' = "e\<lparr>CacheEntry.hits := CacheEntry.hits e + 1\<rparr>"
      let ?s2 = "?s1\<lparr>entries := AList.update d ?e' (entries ?s1), hits := hits ?s1 + 1\<rparr>"
      obtain s' where s': "touch_lru d ?s2 = Some s'"
        "entries s' = AList.update d ?e' (entries ?s1)"
        using shard_inv_update_touch[OF i1, of ?s2 d ?e'] by auto
      then show ?thesis using Some True cl by (simp add: shard_get_def is_valid_def)
    next
      case False
      obtain s2 where s2: "lru_forget d ?s1 = Some s2" "entries s2 = entries ?s1"
        using lru_forget_inv[OF i1, of d] by auto
      then show ?thesis using Some False cl by (simp add: shard_get_def is_valid_def)
    qed
  qed
qed

lemma shard_get_valid:
  assumes "shard_inv s" "shard_get now now' d s = Some (r, s')" "p \<in> set (entries s')"
  shows "now < expiry (snd p)"
proof -
  let ?s1 = "swept now s"
  have v: "\<And>q. q \<in> set (entries ?s1) \<Longrightarrow> now < expiry (snd q)"
    by (rule swept_valid)
  have e: "entries s' =
             (case map_of (entries ?s1) d of
                None \<Rightarrow> entries ?s1
              | Some e \<Rightarrow>
                  if now' < expiry e
                  then AList.update d (e\<lparr>CacheEntry.hits := CacheEntry.hits e + 1\<rparr>) (entries ?s1)
                  else AList.delete d (entries ?s1))"
    using shard_get_entries[OF assms(1), of now now' d] assms(2) by auto
  show ?thesis
  proof (cases "map_of (entries ?s1) d")
    case None
    then have "p \<in> set (entries ?s1)" using e assms(3) by simp
    then show ?thesis by (rule v)
  next
    case (Some e0)
    then have "(d, e0) \<in> set (entries ?s1)" by (rule map_of_SomeD)
    then have v0: "now < expiry e0" using v by fastforce
    show ?thesis
    proof (cases "now' < expiry e0")
      case True
      then have "p \<in> insert (d, e0\<lparr>CacheEntry.hits := CacheEntry.hits e0 + 1\<rparr>) (set (entries ?s1))"
        using e Some assms(3) set_update_subset by fastforce
      then show ?thesis
      proof
        assume "p = (d, e0\<lparr>CacheEntry.hits := CacheEntry.hits e0 + 1\<rparr>)"
        then show ?thesis using v0 by simp
      next
        assume "p \<in> set (entries ?s1)"
        then show ?thesis by (rule v)
      qed
    next
      case False
      then have "p \<in> set (entries ?s1)"
        using e Some assms(3) set_delete_subset by fastforce
      then show ?thesis by (rule v)
    qed
  qed
qed

text \<open>
  Claim C3. In every state reached by a run of public operations on a new cache, \<open>get\<close> is
  defined and returns an address exactly when the domain has an entry whose expiry is
  later than both clock readings of the call (that of the sweep, \<open>now\<close>, and that of
  \<open>is_valid\<close>, \<open>now'\<close>); the address is the entry's. When the entry's expiry is at or before
  one of the readings, \<open>get\<close> returns nothing and the entry is gone afterwards; no entry
  that the sweep found expired remains in the shard.
\<close>

theorem get_returns_only_valid:
  "\<exists>c r c'. run hash ops new_cache = Some c \<and>
      cache_get hash now now' d c = Some (r, c') \<and>
      r = (case map_of (entries (c (get_shard_index hash d))) d of
             None \<Rightarrow> None
           | Some e \<Rightarrow> if now < expiry e \<and> now' < expiry e then Some (ip e) else None) \<and>
      (\<forall>a. r = Some a \<longrightarrow>
         (\<exists>e. map_of (entries (c (get_shard_index hash d))) d = Some e \<and> ip e = a \<and>
              now < expiry e \<and> now' < expiry e)) \<and>
      (\<forall>e. map_of (entries (c (get_shard_index hash d))) d = Some e \<and>
           (expiry e \<le> now \<or> expiry e \<le> now') \<longrightarrow>
         r = None \<and> map_of (entries (c' (get_shard_index hash d))) d = None) \<and>
      (\<forall>p\<in>set (entries (c' (get_shard_index hash d))). now < expiry (snd p))"
proof -
  let ?i = "get_shard_index hash d"
  obtain c where c: "run hash ops new_cache = Some c" "cache_ok c"
    using reachable_ok by blast
  have inv: "shard_inv (c ?i)" using c(2) by (simp add: cache_ok_def shard_ok_def)
  from shard_get_char[OF inv, of now now' d]
  obtain r where "\<exists>s'. shard_get now now' d (c ?i) = Some (r, s') \<and> shard_inv s' \<and>
           length (entries s') \<le> length (entries (c ?i)) \<and>
           evictions s' = evictions (c ?i) \<and>
           r = (case map_of (entries (c ?i)) d of
                  None \<Rightarrow> None
                | Some e \<Rightarrow> if now < expiry e \<and> now' < expiry e then Some (ip e) else None) \<and>
           (r = None \<longrightarrow> map_of (entries s') d = None)" ..
  then obtain s' where gs: "shard_get now now' d (c ?i) = Some (r, s') \<and> shard_inv s' \<and>
           length (entries s') \<le> length (entries (c ?i)) \<and>
           evictions s' = evictions (c ?i) \<and>
           r = (case map_of (entries (c ?i)) d of
                  None \<Rightarrow> None
                | Some e \<Rightarrow> if now < expiry e \<and> now' < expiry e then Some (ip e) else None) \<and>
           (r = None \<longrightarrow> map_of (entries s') d = None)" ..
  then have g: "shard_get now now' d (c ?i) = Some (r, s')"
    and r: "r = (case map_of (entries (c ?i)) d of
                  None \<Rightarrow> None
                | Some e \<Rightarrow> if now < expiry e \<and> now' < expiry e then Some (ip e) else None)"
    and n: "r = None \<longrightarrow> map_of (entries s') d = None"
    by simp_all
  have v: "\<forall>p\<in>set (entries s'). now < expiry (snd p)"
    using shard_get_valid[OF inv g] by blast
  have cg: "cache_get hash now now' d c = Some (r, c(?i := s'))"
    using g by (simp add: cache_get_def)
  have h: "\<forall>a. r = Some a \<longrightarrow>
         (\<exists>e. map_of (entries (c ?i)) d = Some e \<and> ip e = a \<and> now < expiry e \<and> now' < expiry e)"
    using r by (auto split: option.splits if_splits)
  have x: "\<forall>e. map_of (entries (c ?i)) d = Some e \<and> (expiry e \<le> now \<or> expiry e \<le> now') \<longrightarrow>
         r = None \<and> map_of (entries ((c(?i := s')) ?i)) d = None"
    using r n by (auto split: option.splits if_splits)
  have v': "\<forall>p\<in>set (entries ((c(?i := s')) ?i)). now < expiry (snd p)"
    using v by simp
  show ?thesis using c(1) cg r h x v' by blast
qed


lemma get_shard_index_hash0: "get_shard_index hash0 d = 0"
  by (simp add: get_shard_index_def hash0_def)

theorem get_returns_only_valid_witness:
  "\<exists>c ra ca rb cb. run hash0 demo_ops new_cache = Some c \<and>
      cache_get hash0 6 7 ''a.com'' c = Some (ra, ca) \<and> ra = Some ''1.2.3.4'' \<and>
      (\<exists>e. map_of (entries (c 0)) ''a.com'' = Some e \<and> ip e = ''1.2.3.4'' \<and>
           6 < expiry e \<and> 7 < expiry e) \<and>
      (\<exists>p. p \<in> set (entries (ca 0)) \<and> 6 < expiry (snd p)) \<and>
      cache_get hash0 300000000000 300000000001 ''a.com'' c = Some (rb, cb) \<and>
      (\<exists>e. map_of (entries (c 0)) ''a.com'' = Some e \<and> expiry e \<le> 300000000000) \<and>
      rb = None \<and> map_of (entries (cb 0)) ''a.com'' = None"
proof -
  let ?e = "\<lparr>ip = ''1.2.3.4'', expiry = 300000000000, hits = 1\<rparr>"
  from get_returns_only_valid[of hash0 demo_ops 6 7 "''a.com''"]
  obtain c ra ca where a: "run hash0 demo_ops new_cache = Some c"
    "cache_get hash0 6 7 ''a.com'' c = Some (ra, ca)"
    "ra = (case map_of (entries (c 0)) ''a.com'' of
             None \<Rightarrow> None
           | Some e \<Rightarrow> if 6 < expiry e \<and> 7 < expiry e then Some (ip e) else None)"
    "\<forall>a. ra = Some a \<longrightarrow>
         (\<exists>e. map_of (entries (c 0)) ''a.com'' = Some e \<and> ip e = a \<and> 6 < expiry e \<and> 7 < expiry e)"
    "\<forall>p\<in>set (entries (ca 0)). 6 < expiry (snd p)"
    unfolding get_shard_index_hash0 by blast
  from get_returns_only_valid[of hash0 demo_ops 300000000000 300000000001 "''a.com''"]
  obtain c2 rb cb where b: "run hash0 demo_ops new_cache = Some c2"
    "cache_get hash0 300000000000 300000000001 ''a.com'' c2 = Some (rb, cb)"
    "\<forall>e. map_of (entries (c2 0)) ''a.com'' = Some e \<and>
           (expiry e \<le> 300000000000 \<or> expiry e \<le> 300000000001) \<longrightarrow>
         rb = None \<and> map_of (entries (cb 0)) ''a.com'' = None"
    unfolding get_shard_index_hash0 by blast
  have cc: "c2 = c" using a(1) b(1) by simp
  have en: "entries (c 0) = [(''a.com'', ?e)]"
    using a(1) run_demo_ops by (auto simp: demo_shard_def)
  then have m: "map_of (entries (c 0)) ''a.com'' = Some ?e" by simp
  have ra: "ra = Some ''1.2.3.4''" using a(3) m by simp
  then have h: "\<exists>e. map_of (entries (c 0)) ''a.com'' = Some e \<and> ip e = ''1.2.3.4'' \<and>
           6 < expiry e \<and> 7 < expiry e"
    using a(4) by blast
  have x: "rb = None \<and> map_of (entries (cb 0)) ''a.com'' = None"
    using b(3) m cc by simp
  have me: "\<exists>e. map_of (entries (c 0)) ''a.com'' = Some e \<and> expiry e \<le> 300000000000"
    using m by simp
  have "cache_get hash0 6 7 ''a.com'' c = Some (Some ''1.2.3.4'', ca)" using a(2) ra by simp
  then have "entries (ca 0) \<noteq> []"
    using en by (auto simp: cache_eval split: option.splits if_splits)
  then obtain p where "p \<in> set (entries (ca 0))" by (cases "entries (ca 0)") auto
  then have v: "\<exists>p. p \<in> set (entries (ca 0)) \<and> 6 < expiry (snd p)" using a(5) by blast
  show ?thesis using a(1,2) ra h v b(2) me x cc by blast
qed



section \<open>Overwriting an entry\<close>

lemma key_of_inj [simp]: "key_of m = key_of n \<longleftrightarrow> m = n"
proof
  assume "key_of m = key_of n"
  then have "length (key_of m) = length (key_of n)" by simp
  then show "m = n" by (simp add: key_of_def)
qed simp

lemma run_append:
  "run hash (xs @ ys) c = (case run hash xs c of None \<Rightarrow> None | Some c' \<Rightarrow> run hash ys c')"
  by (induction xs arbitrary: c) (auto split: option.splits)

lemma cleanup_loop_noop:
  "(\<forall>p \<in> set rest. now < expiry (snd p)) \<Longrightarrow> cleanup_loop now rest s = Some s"
  by (induction rest) auto

lemma update_absent:
  "k \<notin> fst ` set al \<Longrightarrow> AList.update k v al = al @ [(k, v)]"
  by (induction al) auto

lemma fresh_handle_filled: "fresh_handle (lru_list (filled n)) = Suc n"
proof -
  have s: "set (map fst (lru_list (filled n))) = Suc ` {0..<n}"
    by (auto simp: filled_def image_image)
  have "Max (insert 0 (Suc ` {0..<n})) = n"
  proof (rule Max_eqI)
    show "finite (insert 0 (Suc ` {0..<n}))" by simp
    show "\<And>y. y \<in> insert 0 (Suc ` {0..<n}) \<Longrightarrow> y \<le> n" by auto
    show "n \<in> insert 0 (Suc ` {0..<n})" by (cases n) auto
  qed
  then show ?thesis unfolding fresh_handle_def s by simp
qed

lemma cleanup_filled: "cleanup_expired 0 (filled n) = Some (filled n)"
  unfolding cleanup_expired_def
  by (rule cleanup_loop_noop) (auto simp: filled_def CacheEntry_init_def seconds_def)

lemma shard_set_filled:
  assumes "n < MAX_ENTRIES_PER_SHARD"
  shows "shard_set 0 0 (key_of n) ''10.0.0.1'' 300 (filled n) = Some (filled (Suc n))"
proof -
  have ev: "evict_lru (filled n) = filled n"
    using assms by (simp add: evict_lru_def filled_def)
  have ne: "key_of n \<notin> fst ` set (entries (filled n))"
    by (auto simp: filled_def)
  have nm: "key_of n \<notin> fst ` set (lru_map (filled n))"
    by (auto simp: filled_def)
  then have mo: "map_of (lru_map (filled n)) (key_of n) = None"
    by (simp add: map_of_eq_None_iff)
  have fh: "fresh_handle (lru_list (filled n)) = Suc n"
    by (rule fresh_handle_filled)
  have "touch_lru (key_of n)
          ((filled n)\<lparr>entries := AList.update (key_of n) (CacheEntry_init ''10.0.0.1'' 300 0)
                                  (entries (filled n))\<rparr>) = Some (filled (Suc n))"
    using mo fh update_absent[OF ne] update_absent[OF nm]
    by (simp add: touch_lru_def push_front_def) (simp add: filled_def)
  then show ?thesis
    by (simp add: shard_set_def cleanup_filled ev)
qed

lemma run_fill:
  "n \<le> MAX_ENTRIES_PER_SHARD \<Longrightarrow> run hash0 (fill_ops n) new_cache = Some (new_cache(0 := filled n))"
proof (induction n)
  case 0
  have "new_cache(0 := filled 0) = new_cache"
    by (rule ext) (simp add: new_cache_def filled_def empty_shard_def)
  then show ?case by (simp add: fill_ops_def)
next
  case (Suc n)
  have lt: "n < MAX_ENTRIES_PER_SHARD" using Suc.prems by simp
  have r: "run hash0 (fill_ops n) new_cache = Some (new_cache(0 := filled n))"
    by (rule Suc.IH) (use lt in simp)
  have f: "fill_ops (Suc n) = fill_ops n @ [Set (key_of n) ''10.0.0.1'' 300 0 0]"
    by (simp add: fill_ops_def)
  have "cache_set hash0 0 0 (key_of n) ''10.0.0.1'' 300 (new_cache(0 := filled n)) =
          Some (new_cache(0 := filled (Suc n)))"
    using shard_set_filled[OF lt] by (simp add: cache_set_def get_shard_index_hash0)
  then show ?case using r by (simp add: f run_append) (rule ext, simp)
qed


lemma filled_length: "length (entries (filled n)) = n"
  by (simp add: filled_def)

lemma filled_evictions: "evictions (filled n) = 0"
  by (simp add: filled_def)

lemma filled_inv:
  assumes "n \<le> MAX_ENTRIES_PER_SHARD"
  shows "shard_inv (filled n)"
proof -
  obtain c where c: "run hash0 (fill_ops n) new_cache = Some c" "cache_ok c"
    using reachable_ok by blast
  have "c = new_cache(0 := filled n)" using c(1) run_fill[OF assms] by simp
  then have "c 0 = filled n" by simp
  moreover have "shard_inv (c 0)" using c(2) by (simp add: cache_ok_def shard_ok_def)
  ultimately show ?thesis by simp
qed

lemma shard_set_full:
  assumes "Suc n = MAX_ENTRIES_PER_SHARD" "0 < n"
  shows "\<exists>s'. shard_set 0 0 (key_of n) ''10.0.0.1'' 300 (filled (Suc n)) = Some s' \<and>
              length (entries s') = n \<and> evictions s' = 1"
proof -
  let ?f = "filled (Suc n)"
  let ?e = "CacheEntry_init ''10.0.0.1'' 300 0"
  have inv: "shard_inv ?f" using assms(1) by (intro filled_inv) simp
  have "cleanup_expired 0 ?f = Some (swept 0 ?f)" by (rule cleanup_expired_swept[OF inv])
  then have sw: "swept 0 ?f = ?f" using cleanup_filled[of "Suc n"] by simp
  have "last (lru_list ?f) = (Suc 0, key_of 0)"
    by (simp add: filled_def last_map last_rev hd_upt del: upt_Suc)
  then have ev: "evict_lru ?f =
      ?f\<lparr>entries := AList.delete (key_of 0) (entries ?f),
         lru_map := AList.delete (key_of 0) (lru_map ?f),
         lru_list := butlast (lru_list ?f),
         evictions := evictions ?f + 1\<rparr>"
    using assms(1) filled_length[of "Suc n"]
    by (simp add: evict_lru_def Let_def) (simp add: filled_def)
  have k0: "key_of 0 \<in> fst ` set (entries ?f)"
    by (force simp: filled_def)
  have de: "distinct (map fst (entries ?f))" using inv by (simp add: shard_inv_def)
  have "Suc (length (AList.delete (key_of 0) (entries ?f))) = length (entries ?f)"
    by (rule length_delete_member[OF de k0])
  then have ld: "length (AList.delete (key_of 0) (entries ?f)) = n"
    using filled_length[of "Suc n"] by simp
  have "(key_of n, ?e) \<in> set (entries ?f)" by (force simp: filled_def)
  then have "(key_of n, ?e) \<in> set (AList.delete (key_of 0) (entries ?f))"
    using assms(2) by (simp add: delete_as_filter)
  then have kn: "key_of n \<in> fst ` set (AList.delete (key_of 0) (entries ?f))"
    by force
  obtain s' where s': "shard_set 0 0 (key_of n) ''10.0.0.1'' 300 ?f = Some s'"
    "entries s' = AList.update (key_of n) ?e (entries (evict_lru (swept 0 ?f)))"
    "evictions s' = evictions (evict_lru (swept 0 ?f))"
    using shard_set_char[OF inv, of 0 0 "key_of n" "''10.0.0.1''" 300] by blast
  have "length (entries s') = n"
    using s'(2) sw ev kn ld by (simp add: length_update)
  moreover have "evictions s' = 1"
    using s'(3) sw ev filled_evictions[of "Suc n"] by simp
  ultimately show ?thesis using s'(1) by blast
qed

lemma run_sweep_ops:
  "map_option shard0_summary (run hash0 sweep_ops new_cache) = Some (2, 0) \<and>
   map_option shard0_summary
     (run hash0 (sweep_ops @ [Set ''a.com'' ''1.2.3.4'' 300 2000000000 2000000000]) new_cache) =
     Some (1, 0)"
  by (simp add: sweep_ops_def shard0_summary_def cache_eval)

text \<open>
  Claim C1, as stated, fails on two runs from a new cache. After 512 calls of \<open>set\<close> with
  distinct domains of shard 0, the last one for \<open>key_of 511\<close>, the shard holds 512 entries
  and has evicted nothing; the same call of \<open>set\<close> once more, for a domain that is present,
  evicts the least recently used entry: 511 entries remain and the eviction counter is 1.
  And a \<open>set\<close> that overwrites \<open>a.com\<close> after \<open>b.com\<close> has expired sweeps \<open>b.com\<close> away: the
  shard goes from 2 entries to 1.
\<close>

theorem set_overwrite_evicts_at_capacity:
  "fill_ops 512 = fill_ops 511 @ [Set (key_of 511) ''10.0.0.1'' 300 0 0] \<and>
   map_option shard0_summary (run hash0 (fill_ops 512) new_cache) = Some (512, 0) \<and>
   map_option shard0_summary
     (run hash0 (fill_ops 512 @ [Set (key_of 511) ''10.0.0.1'' 300 0 0]) new_cache) = Some (511, 1) \<and>
   map_option shard0_summary (run hash0 sweep_ops new_cache) = Some (2, 0) \<and>
   map_option shard0_summary
     (run hash0 (sweep_ops @ [Set ''a.com'' ''1.2.3.4'' 300 2000000000 2000000000]) new_cache) =
     Some (1, 0)"
proof -
  have m: "MAX_ENTRIES_PER_SHARD = 512"
    by (simp add: MAX_ENTRIES_PER_SHARD_def CACHE_SIZE_def NUM_SHARDS_def)
  have s: "Suc 511 = (512::nat)" by simp
  have f: "fill_ops (Suc 511) = fill_ops 511 @ [Set (key_of 511) ''10.0.0.1'' 300 0 0]"
    unfolding fill_ops_def by (simp only: upt_Suc_append le0 map_append list.map)
  have r: "run hash0 (fill_ops (Suc 511)) new_cache = Some (new_cache(0 := filled (Suc 511)))"
    by (rule run_fill) (simp add: m)
  have a: "shard0_summary (new_cache(0 := filled (Suc 511))) = (Suc 511, 0)"
    by (simp add: shard0_summary_def filled_length filled_evictions)
  obtain s' where s': "shard_set 0 0 (key_of 511) ''10.0.0.1'' 300 (filled (Suc 511)) = Some s'"
    "length (entries s') = 511" "evictions s' = 1"
    using shard_set_full[of 511] m by auto
  have "cache_set hash0 0 0 (key_of 511) ''10.0.0.1'' 300 (new_cache(0 := filled (Suc 511))) =
          Some ((new_cache(0 := filled (Suc 511)))(0 := s'))"
    using s'(1) by (simp add: cache_set_def get_shard_index_hash0)
  then have "run hash0 (fill_ops (Suc 511) @ [Set (key_of 511) ''10.0.0.1'' 300 0 0]) new_cache =
          Some ((new_cache(0 := filled (Suc 511)))(0 := s'))"
    using r by (simp add: run_append)
  then have b: "map_option shard0_summary
     (run hash0 (fill_ops (Suc 511) @ [Set (key_of 511) ''10.0.0.1'' 300 0 0]) new_cache) = Some (511, 1)"
    using s'(2,3) by (simp add: shard0_summary_def)
  show ?thesis using f r a b run_sweep_ops unfolding s by simp
qed

text \<open>
  Claim C1, amended. In a state reached by a run of public operations, let \<open>s1\<close> be the
  shard of \<open>d\<close> after the expire-sweep that \<open>set\<close> starts with (the entries with
  \<open>now < expiry\<close>). If \<open>d\<close> is present in \<open>s1\<close> and \<open>s1\<close> holds fewer than
  \<open>MAX_ENTRIES_PER_SHARD\<close> entries, then \<open>set(d, ip, ttl)\<close> is defined, evicts nothing and
  leaves the counters of the shard and every other shard as they are; the shard keeps the
  keys and the number of entries of \<open>s1\<close>, the entry of \<open>d\<close> becomes the new one (address
  \<open>ip\<close>, expiry \<open>now' + ttl\<close>, hit count 0) and every other entry of \<open>s1\<close> is unchanged, and
  \<open>d\<close> moves to the front of the LRU order, the other keys keeping their order.
\<close>

theorem set_overwrite_below_capacity:
  assumes "run hash ops new_cache = Some c"
    and "cleanup_expired now (c (get_shard_index hash d)) = Some s1"
    and "d \<in> fst ` set (entries s1)"
    and "length (entries s1) < MAX_ENTRIES_PER_SHARD"
  shows "\<exists>c'. cache_set hash now now' d ip_addr ttl c = Some c' \<and>
     (\<forall>j. j \<noteq> get_shard_index hash d \<longrightarrow> c' j = c j) \<and>
     entries s1 = filter (\<lambda>p. now < expiry (snd p)) (entries (c (get_shard_index hash d))) \<and>
     evictions (c' (get_shard_index hash d)) = evictions (c (get_shard_index hash d)) \<and>
     hits (c' (get_shard_index hash d)) = hits (c (get_shard_index hash d)) \<and>
     misses (c' (get_shard_index hash d)) = misses (c (get_shard_index hash d)) \<and>
     length (entries (c' (get_shard_index hash d))) = length (entries s1) \<and>
     fst ` set (entries (c' (get_shard_index hash d))) = fst ` set (entries s1) \<and>
     map_of (entries (c' (get_shard_index hash d))) =
       (map_of (entries s1))(d \<mapsto> CacheEntry_init ip_addr ttl now') \<and>
     map snd (lru_list (c' (get_shard_index hash d))) =
       d # filter (\<lambda>k. k \<noteq> d) (map snd (lru_list s1))"
proof -
  let ?i = "get_shard_index hash d"
  let ?e = "CacheEntry_init ip_addr ttl now'"
  obtain c2 where "run hash ops new_cache = Some c2" "cache_ok c2"
    using reachable_ok by blast
  then have ok: "cache_ok c" using assms(1) by simp
  then have inv: "shard_inv (c ?i)" by (simp add: cache_ok_def shard_ok_def)
  have s1: "s1 = swept now (c ?i)"
    using cleanup_expired_swept[OF inv, of now] assms(2) by simp
  have en: "entries s1 = filter (\<lambda>p. now < expiry (snd p)) (entries (c ?i))"
    by (simp add: s1 swept_def)
  have ev: "evict_lru s1 = s1" using assms(4) by (simp add: evict_lru_def)
  obtain s' where s': "shard_set now now' d ip_addr ttl (c ?i) = Some s'"
    "entries s' = AList.update d ?e (entries s1)"
    "map snd (lru_list s') = d # filter (\<lambda>k. k \<noteq> d) (map snd (lru_list s1))"
    "hits s' = hits (c ?i)" "misses s' = misses (c ?i)" "evictions s' = evictions s1"
    using shard_set_char[OF inv, of now now' d ip_addr ttl] ev s1 by auto
  have cs: "cache_set hash now now' d ip_addr ttl c = Some (c(?i := s'))"
    using s'(1) by (simp add: cache_set_def)
  have e1: "evictions s' = evictions (c ?i)"
    using s'(6) s1 swept_counters[of now "c ?i"] by simp
  have l: "length (entries s') = length (entries s1)"
    using s'(2) assms(3) by (simp add: length_update)
  have k: "fst ` set (entries s') = fst ` set (entries s1)"
    using s'(2) assms(3) by (auto simp: dom_update)
  have m: "map_of (entries s') = (map_of (entries s1))(d \<mapsto> ?e)"
    using s'(2) by (simp add: update_conv')
  show ?thesis
    using cs en e1 s'(3,4,5) l k m by simp
qed

theorem set_overwrite_below_capacity_witness:
  "\<exists>c'. cache_set hash0 6 7 ''a.com'' ''5.6.7.8'' 60 (new_cache(0 := demo_shard)) = Some c' \<and>
     (1::nat) \<noteq> get_shard_index hash0 ''a.com'' \<and> c' 1 = (new_cache(0 := demo_shard)) 1 \<and>
     evictions (c' 0) = evictions demo_shard \<and> length (entries (c' 0)) = 1 \<and>
     map snd (lru_list (c' 0)) = [''a.com'']"
proof -
  have cl: "cleanup_expired 6 ((new_cache(0 := demo_shard)) (get_shard_index hash0 ''a.com'')) =
              Some demo_shard"
    by (simp add: get_shard_index_hash0 cleanup_expired_def demo_shard_def)
  have me: "''a.com'' \<in> fst ` set (entries demo_shard)"
    by (simp add: demo_shard_def)
  have lt: "length (entries demo_shard) < MAX_ENTRIES_PER_SHARD"
    by (simp add: demo_shard_def MAX_ENTRIES_PER_SHARD_def CACHE_SIZE_def NUM_SHARDS_def)
  have ne: "(1::nat) \<noteq> get_shard_index hash0 ''a.com''"
    by (simp add: get_shard_index_hash0)
  let ?i = "get_shard_index hash0 ''a.com''"
  let ?c = "new_cache(0 := demo_shard)"
  from set_overwrite_below_capacity[OF run_demo_ops cl me lt, of 7 "''5.6.7.8''" 60]
  obtain c' where cc: "cache_set hash0 6 7 ''a.com'' ''5.6.7.8'' 60 ?c = Some c' \<and>
     (\<forall>j. j \<noteq> ?i \<longrightarrow> c' j = ?c j) \<and>
     entries demo_shard = filter (\<lambda>p. 6 < expiry (snd p)) (entries (?c ?i)) \<and>
     evictions (c' ?i) = evictions (?c ?i) \<and>
     hits (c' ?i) = hits (?c ?i) \<and>
     misses (c' ?i) = misses (?c ?i) \<and>
     length (entries (c' ?i)) = length (entries demo_shard) \<and>
     fst ` set (entries (c' ?i)) = fst ` set (entries demo_shard) \<and>
     map_of (entries (c' ?i)) =
       (map_of (entries demo_shard))(''a.com'' \<mapsto> CacheEntry_init ''5.6.7.8'' 60 7) \<and>
     map snd (lru_list (c' ?i)) =
       ''a.com'' # filter (\<lambda>k. k \<noteq> ''a.com'') (map snd (lru_list demo_shard))" ..
  note c' = cc[THEN conjunct1] cc[THEN conjunct2, THEN conjunct1]
    cc[THEN conjunct2, THEN conjunct2, THEN conjunct2, THEN conjunct1]
    cc[THEN conjunct2, THEN conjunct2, THEN conjunct2, THEN conjunct2, THEN conjunct2,
       THEN conjunct2, THEN conjunct1]
    cc[THEN conjunct2, THEN conjunct2, THEN conjunct2, THEN conjunct2, THEN conjunct2,
       THEN conjunct2, THEN conjunct2, THEN conjunct2, THEN conjunct2]
  have o: "c' 1 = (new_cache(0 := demo_shard)) 1" using c'(2) ne by blast
  have e: "evictions (c' 0) = evictions demo_shard"
    using c'(3) by (simp add: get_shard_index_hash0)
  have l: "length (entries (c' 0)) = 1"
    using c'(4) by (simp add: get_shard_index_hash0 demo_shard_def)
  have m: "map snd (lru_list (c' 0)) = [''a.com'']"
    using c'(5) by (simp add: get_shard_index_hash0 demo_shard_def)
  show ?thesis
    by (intro exI[of _ c'] conjI) (fact c'(1) ne o e l m)+
qed

section \<open>The name decoder: bounds\<close>

text \<open>
  Claim C10 says that \<open>parse_domain_name\<close> reads only octets at indices below \<open>len\<close>. The
  branch for a label checks \<open>offset + 1 + label_len > len\<close> before it reads the label; the
  branch for a compression pointer reads \<open>data[offset + 1]\<close> with no check. On the datagram
  of 13 octets that ends in the octet \<open>0xC0\<close>, parsed from offset 12, the decoder reads the
  octet at index 13, past the end.
\<close>

theorem parse_domain_name_reads_past_len:
  "parse_domain_name [0x12, 0x34, 1, 0, 0, 1, 0, 0, 0, 0, 0, 0, 0xC0] 13 12 =
     Some (Inl (OutOfBounds 13))"
  by (simp add: parse_domain_name_def parse_loop.simps read_octet_def)

section \<open>The name decoder: pointer chains\<close>

declare first_pointer.simps [simp del]

lemma parse_loop_follows:
  assumes "\<And>result jumped orig. \<exists>r. parse_loop data len (pointer_target data p) result jumped orig = Some r"
    and "first_pointer data len offset = Some p"
  shows "\<exists>r. parse_loop data len offset result jumped orig = Some r"
  using assms(2) assms(1)
proof (induction data len offset arbitrary: result rule: first_pointer.induct)
  case (1 data len offset)
  note fp = "1.prems"(1) and tgt = "1.prems"(2)
  have b: "offset < len" "offset < length data"
    using fp by (auto simp: first_pointer.simps[of data len offset] split: if_splits)
  show ?case
  proof (cases "data ! offset AND 0xC0 = 0xC0")
    case True
    then have nz: "data ! offset \<noteq> 0" by auto
    then have p: "p = offset"
      using fp b True by (simp add: first_pointer.simps[of data len offset])
    show ?thesis
    proof (cases "offset + 1 < length data")
      case False
      then show ?thesis using b True nz
        by (subst parse_loop.simps) (simp add: read_octet_def)
    next
      case l: True
      obtain r where "parse_loop data len (pointer_target data offset) result True
                        (if jumped then orig else offset + 2) = Some r"
        using tgt p by blast
      then show ?thesis using b True nz l
        by (subst parse_loop.simps) (simp add: read_octet_def pointer_target_def)
    qed
  next
    case False
    then have nz: "data ! offset \<noteq> 0"
      using fp b by (auto simp: first_pointer.simps[of data len offset] split: if_splits)
    have fit: "\<not> len < offset + 1 + unat (data ! offset)"
      using fp b False nz by (auto simp: first_pointer.simps[of data len offset] split: if_splits)
    have next_fp: "first_pointer data len (offset + 1 + unat (data ! offset)) = Some p"
      using fp b False nz fit by (simp add: first_pointer.simps[of data len offset])
    show ?thesis
    proof (cases "length data < offset + 1 + unat (data ! offset)")
      case True
      then show ?thesis using b False nz fit
        by (subst parse_loop.simps) (simp add: read_octet_def)
    next
      case l: False
      obtain r where "parse_loop data len (offset + 1 + unat (data ! offset))
           ((if result \<noteq> [] then result @ ''.'' else result) @
              map byte_to_char (take (unat (data ! offset)) (drop (offset + 1) data)))
           jumped orig = Some r"
        using "1.IH"[OF _ nz False _ next_fp tgt] b fit by fastforce
      then show ?thesis using b False nz fit l
        by (subst parse_loop.simps) (simp add: read_octet_def)
    qed
  qed
qed

lemma parse_loop_plain:
  assumes "first_pointer data len offset = None"
  shows "\<exists>r. parse_loop data len offset result jumped orig = Some r"
  using assms
proof (induction data len offset arbitrary: result rule: first_pointer.induct)
  case (1 data len offset)
  note fp = "1.prems"
  show ?case
  proof (cases "offset < len")
    case False
    then show ?thesis by (subst parse_loop.simps) simp
  next
    case lt: True
    show ?thesis
    proof (cases "offset < length data")
      case False
      then show ?thesis using lt by (subst parse_loop.simps) (simp add: read_octet_def)
    next
      case ld: True
      show ?thesis
      proof (cases "data ! offset = 0")
        case True
        then show ?thesis using lt ld by (subst parse_loop.simps) (simp add: read_octet_def)
      next
        case nz: False
        have np: "data ! offset AND 0xC0 \<noteq> 0xC0"
          using fp lt ld nz by (auto simp: first_pointer.simps[of data len offset] split: if_splits)
        show ?thesis
        proof (cases "len < offset + 1 + unat (data ! offset)")
          case True
          then show ?thesis using lt ld nz np
            by (subst parse_loop.simps) (simp add: read_octet_def)
        next
          case fit: False
          show ?thesis
          proof (cases "length data < offset + 1 + unat (data ! offset)")
            case True
            then show ?thesis using lt ld nz np fit
              by (subst parse_loop.simps) (simp add: read_octet_def)
          next
            case l: False
            have next_fp: "first_pointer data len (offset + 1 + unat (data ! offset)) = None"
              using fp lt ld nz np fit by (simp add: first_pointer.simps[of data len offset])
            obtain r where "parse_loop data len (offset + 1 + unat (data ! offset))
                 ((if result \<noteq> [] then result @ ''.'' else result) @
                    map byte_to_char (take (unat (data ! offset)) (drop (offset + 1) data)))
                 jumped orig = Some r"
              using "1.IH"[OF _ nz np _ next_fp] lt ld fit by fastforce
            then show ?thesis using lt ld nz np fit l
              by (subst parse_loop.simps) (simp add: read_octet_def)
          qed
        qed
      qed
    qed
  qed
qed

lemma parse_loop_chain:
  "chain_ends k data len offset \<Longrightarrow> \<exists>r. parse_loop data len offset result jumped orig = Some r"
proof (induction k arbitrary: offset result jumped orig)
  case 0
  then show ?case by (simp add: parse_loop_plain)
next
  case (Suc k)
  show ?case
  proof (cases "first_pointer data len offset")
    case None
    then show ?thesis by (rule parse_loop_plain)
  next
    case (Some p)
    then have "chain_ends k data len (pointer_target data p)" using Suc.prems by simp
    then have "\<And>result jumped orig.
        \<exists>r. parse_loop data len (pointer_target data p) result jumped orig = Some r"
      using Suc.IH by blast
    then show ?thesis using Some by (rule parse_loop_follows)
  qed
qed

text \<open>
  The decoder returns (a name with the final offset, or the report of a read past the
  buffer) whenever the name at the offset is complete after finitely many pointers.
\<close>

lemma parse_domain_name_finite_chain:
  "chain_ends k data len offset \<Longrightarrow> \<exists>r. parse_domain_name data len offset = Some r"
  unfolding parse_domain_name_def by (rule parse_loop_chain)

lemma parse_loop_cycle:
  assumes "parse_loop data len offset result jumped orig = Some y"
  shows "\<not> (data = cycle_packet \<and> len = 14 \<and> offset = 12)"
proof (rule parse_loop.raw_induct[where P = "\<lambda>data len offset result jumped orig y.
          \<not> (data = cycle_packet \<and> len = 14 \<and> offset = 12)", OF _ assms], goal_cases)
  case (1 f data len offset result jumped original_offset y)
  show ?case
  proof
    assume a: "data = cycle_packet \<and> len = 14 \<and> offset = 12"
    then obtain o' where "f data len 12 result True o' = Some y"
      using 1(2) by (simp add: read_octet_def cycle_packet_def)
    then show False using 1(1) a by blast
  qed
qed

lemma parse_dns_header_cycle:
  "parse_dns_header le cycle_packet 14 =
     Inr (Some \<lparr>hdr_id = load16_host le 0x12 0x34, flags = 0x0100, qdcount = 1,
                ancount = 0, nscount = 0, arcount = 0\<rparr>)"
  by (simp add: parse_dns_header_def cycle_packet_def ntohs_load16 mk16_def)

text \<open>
  Claim C9 says that \<open>parse_domain_name\<close> terminates on every buffer, also one whose
  compression pointers form a cycle. The code follows a pointer without recording or
  counting it: on the 14-octet datagram whose name, at offset 12, is the pointer \<open>C0 0C\<close>
  to offset 12, the loop sets the offset back to 12 at every round and never ends. The
  datagram has a well-formed header with one question, so \<open>handle_query\<close> reaches the
  decoder and does not return either, whatever the platform, the clock and the state of
  the server.
\<close>

theorem parse_domain_name_loops_on_cycle:
  "parse_domain_name cycle_packet 14 12 = None \<and>
   handle_query pf clk cycle_packet 14 srv = None"
proof -
  have n: "parse_domain_name cycle_packet 14 12 = None"
  proof (cases "parse_domain_name cycle_packet 14 12")
    case None
    then show ?thesis .
  next
    case (Some y)
    then have "parse_loop cycle_packet 14 12 [] False 12 = Some y"
      by (simp add: parse_domain_name_def)
    then show ?thesis using parse_loop_cycle by blast
  qed
  have p: "parse_dns_question (little_endian pf) cycle_packet 14 12 = None"
    by (simp add: parse_dns_question_def n)
  have "handle_query pf clk cycle_packet 14 srv = None"
    by (simp add: handle_query_def parse_dns_header_cycle p Let_def)
  then show ?thesis using n by simp
qed

section \<open>The name decoder: the cursor after a compression pointer\<close>

lemma parse_loop_jumped:
  assumes "parse_loop data len offset result jumped orig = Some y"
  shows "jumped \<longrightarrow> (\<forall>name off. y = Inr (name, off) \<longrightarrow>
           off = orig \<or> (name = [] \<and> off < len \<and> len < off + 1 + unat (data ! off)))"
proof (rule parse_loop.raw_induct[where P = "\<lambda>data len offset result jumped orig y.
          jumped \<longrightarrow> (\<forall>name off. y = Inr (name, off) \<longrightarrow>
           off = orig \<or> (name = [] \<and> off < len \<and> len < off + 1 + unat (data ! off)))",
        OF _ assms], goal_cases)
  case (1 f data len offset result jumped orig y)
  show ?case
  proof (intro impI allI)
    fix name off
    assume j: jumped and y: "y = Inr (name, off)"
    show "off = orig \<or> (name = [] \<and> off < len \<and> len < off + 1 + unat (data ! off))"
    proof (cases "offset < len")
      case False
      then show ?thesis using 1(2) j y by simp
    next
      case lt: True
      show ?thesis
      proof (cases "offset < length data")
        case False
        then show ?thesis using 1(2) lt y by (simp add: read_octet_def)
      next
        case ld: True
        show ?thesis
        proof (cases "data ! offset = 0")
          case True
          then show ?thesis using 1(2) lt ld j y by (simp add: read_octet_def)
        next
          case nz: False
          show ?thesis
          proof (cases "data ! offset AND 0xC0 = 0xC0")
            case True
            show ?thesis
            proof (cases "offset + 1 < length data")
              case False
              then show ?thesis using 1(2) lt ld nz True y by (simp add: read_octet_def)
            next
              case l1: True
              then have "f data len (pointer_target data offset) result True orig = Some y"
                using 1(2) lt ld nz True j by (simp add: read_octet_def pointer_target_def)
              then show ?thesis using 1(1) y by blast
            qed
          next
            case np: False
            show ?thesis
            proof (cases "len < offset + 1 + unat (data ! offset)")
              case True
              then show ?thesis using 1(2) lt ld nz np y by (simp add: read_octet_def)
            next
              case fit: False
              show ?thesis
              proof (cases "length data < offset + 1 + unat (data ! offset)")
                case True
                then show ?thesis using 1(2) lt ld nz np fit y by (simp add: read_octet_def)
              next
                case False
                then have "f data len (offset + 1 + unat (data ! offset))
                   ((if result \<noteq> [] then result @ ''.'' else result) @
                      map byte_to_char (take (unat (data ! offset)) (drop (offset + 1) data)))
                   jumped orig = Some y"
                  using 1(2) lt ld nz np fit by (simp add: read_octet_def)
                then show ?thesis using 1(1) j y by blast
              qed
            qed
          qed
        qed
      qed
    qed
  qed
qed

lemma parse_loop_first_pointer:
  assumes "first_pointer data len offset = Some p"
    and "parse_loop data len offset result False orig = Some (Inr (name, off))"
  shows "off = p + 2 \<or> (name = [] \<and> off < len \<and> len < off + 1 + unat (data ! off))"
  using assms
proof (induction data len offset arbitrary: result rule: first_pointer.induct)
  case (1 data len offset)
  note fp = "1.prems"(1) and pl = "1.prems"(2)
  have b: "offset < len" "offset < length data"
    using fp by (auto simp: first_pointer.simps[of data len offset] split: if_splits)
  show ?case
  proof (cases "data ! offset AND 0xC0 = 0xC0")
    case True
    then have nz: "data ! offset \<noteq> 0" by auto
    then have p: "p = offset"
      using fp b True by (simp add: first_pointer.simps[of data len offset])
    have l: "offset + 1 < length data"
      using pl b True nz by (subst (asm) parse_loop.simps) (auto simp: read_octet_def split: if_splits)
    have "parse_loop data len (pointer_target data offset) result True (offset + 2) =
            Some (Inr (name, off))"
      using pl b True nz l
      by (subst (asm) parse_loop.simps) (simp add: read_octet_def pointer_target_def)
    then show ?thesis using parse_loop_jumped p by fastforce
  next
    case False
    then have nz: "data ! offset \<noteq> 0"
      using fp b by (auto simp: first_pointer.simps[of data len offset] split: if_splits)
    have fit: "\<not> len < offset + 1 + unat (data ! offset)"
      using fp b False nz by (auto simp: first_pointer.simps[of data len offset] split: if_splits)
    have next_fp: "first_pointer data len (offset + 1 + unat (data ! offset)) = Some p"
      using fp b False nz fit by (simp add: first_pointer.simps[of data len offset])
    have l: "\<not> length data < offset + 1 + unat (data ! offset)"
      using pl b False nz fit
      by (subst (asm) parse_loop.simps) (auto simp: read_octet_def split: if_splits)
    have "parse_loop data len (offset + 1 + unat (data ! offset))
           ((if result \<noteq> [] then result @ ''.'' else result) @
              map byte_to_char (take (unat (data ! offset)) (drop (offset + 1) data)))
           False orig = Some (Inr (name, off))"
      using pl b False nz fit l
      by (subst (asm) parse_loop.simps) (simp add: read_octet_def)
    then show ?thesis
      using "1.IH"[OF _ nz False _ next_fp] b fit by fastforce
  qed
qed

text \<open>
  Claim C7, amended. When the name being parsed contains a compression pointer, the first
  one at position \<open>p\<close>, and the decoder returns, then either the cursor is \<open>p + 2\<close>, the
  octet after the pointer, wherever the jumps led; or the decoder left through
  \<open>return ""\<close>: the name is empty and the cursor is at the length octet of a label that
  overruns \<open>len\<close>. Every run that returns a non-empty name has the cursor at \<open>p + 2\<close>.
\<close>

theorem offset_after_first_pointer:
  assumes "first_pointer data len offset = Some p"
    and "parse_domain_name data len offset = Some (Inr (name, off))"
  shows "off = p + 2 \<or> (name = [] \<and> off < len \<and> len < off + 1 + unat (data ! off))"
  using assms parse_loop_first_pointer unfolding parse_domain_name_def by blast

theorem offset_after_first_pointer_witness:
  "first_pointer pointer_packet 18 12 = Some 12 \<and>
   parse_domain_name pointer_packet 18 12 = Some (Inr (''a'', 14)) \<and>
   ((14::nat) = 12 + 2 \<or>
    (''a'' = [] \<and> (14::nat) < 18 \<and> 18 < 14 + 1 + unat (pointer_packet ! 14)))"
proof -
  have f: "first_pointer pointer_packet 18 12 = Some 12"
    by (simp add: pointer_packet_def first_pointer.simps)
  have p: "parse_domain_name pointer_packet 18 12 = Some (Inr (''a'', 14))"
    by (simp add: parse_domain_name_def pointer_packet_def parse_loop.simps read_octet_def
        byte_to_char_def char_of_def bit_Suc_0_iff)
  show ?thesis using f p offset_after_first_pointer[OF f p] by simp
qed

text \<open>
  Claim C7, as stated, fails: the name at offset 12 is a pointer to offset 15, where a
  label of length 5 overruns the 16 octets; the decoder returns the empty string with the
  cursor at 15, not at 14.
\<close>

theorem offset_not_restored_on_overrun:
  "first_pointer overrun_packet 16 12 = Some 12 \<and>
   parse_domain_name overrun_packet 16 12 = Some (Inr ('''', 15))"
  by (simp add: overrun_packet_def first_pointer.simps parse_domain_name_def parse_loop.simps
      read_octet_def)

section \<open>Decoding and re-encoding a question\<close>


lemma byte_to_char_inverse: "byte_to_char (char_to_byte c) = c"
  unfolding char_to_byte_def byte_to_char_def
  by (simp add: unat_of_nat)

lemma label_length_octet:
  assumes "l \<noteq> []" "length l \<le> 63"
  shows "unat (of_nat (length l) :: byte) = length l"
    and "(of_nat (length l) :: byte) \<noteq> 0"
    and "(of_nat (length l) :: byte) AND 0xC0 \<noteq> 0xC0"
proof -
  show u: "unat (of_nat (length l) :: byte) = length l"
    using assms(2) by (simp add: unat_of_nat)
  show "(of_nat (length l) :: byte) \<noteq> 0"
  proof
    assume "(of_nat (length l) :: byte) = 0"
    then have "unat (of_nat (length l) :: byte) = 0" by simp
    then show False using u assms(1) by simp
  qed
  show "(of_nat (length l) :: byte) AND 0xC0 \<noteq> 0xC0"
  proof
    assume a: "(of_nat (length l) :: byte) AND 0xC0 = 0xC0"
    have "(of_nat (length l) :: byte) AND 0xC0 \<le> of_nat (length l)" by (rule word_and_le2)
    then have "(0xC0 :: byte) \<le> of_nat (length l)" using a by simp
    then have "unat (0xC0 :: byte) \<le> unat (of_nat (length l) :: byte)"
      by (simp add: word_le_nat_alt)
    then show False using u assms(2) by simp
  qed
qed

lemma parse_loop_labels:
  assumes "\<forall>l\<in>set ls. l \<noteq> [] \<and> length l \<le> 63"
  shows "parse_loop (pre @ wire_name ls @ suf) (length (pre @ wire_name ls @ suf)) (length pre)
           result False orig =
         Some (Inr (append_labels result ls, length pre + length (wire_name ls)))"
  using assms
proof (induction ls arbitrary: pre result)
  case Nil
  show ?case
    by (subst parse_loop.simps) (simp add: wire_name_def read_octet_def nth_append)
next
  case (Cons l ls)
  let ?data = "pre @ wire_name (l # ls) @ suf"
  let ?n = "of_nat (length l) :: byte"
  have l: "l \<noteq> []" "length l \<le> 63" using Cons.prems by simp_all
  note lo = label_length_octet[OF l]
  have d: "?data = (pre @ encode_label l) @ wire_name ls @ suf"
    by (simp add: wire_name_def)
  have hd: "?data ! length pre = ?n"
    by (simp add: wire_name_def encode_label_def nth_append)
  have tk: "take (length l) (drop (length pre + 1) ?data) = map char_to_byte l"
    by (simp add: wire_name_def encode_label_def)
  have ln: "length (pre @ encode_label l) = length pre + 1 + length l"
    by (simp add: encode_label_def)
  have fit: "length pre + 1 + length l \<le> length ?data"
    by (simp add: wire_name_def encode_label_def)
  have ih: "parse_loop ?data (length ?data) (length pre + 1 + length l)
              ((if result \<noteq> [] then result @ ''.'' else result) @ l) False orig =
            Some (Inr (append_labels ((if result \<noteq> [] then result @ ''.'' else result) @ l) ls,
                       length (pre @ encode_label l) + length (wire_name ls)))"
    using Cons.IH[of "pre @ encode_label l" "(if result \<noteq> [] then result @ ''.'' else result) @ l"]
      Cons.prems unfolding d ln by simp
  have lt: "length pre < length ?data" by (simp add: wire_name_def)
  have "parse_loop ?data (length ?data) (length pre) result False orig =
        parse_loop ?data (length ?data) (length pre + 1 + length l)
              ((if result \<noteq> [] then result @ ''.'' else result) @ l) False orig"
    using lt hd lo fit tk
    by (subst parse_loop.simps) (simp add: read_octet_def byte_to_char_inverse comp_def)
  then show ?case using ih ln
    by (simp add: wire_name_def)
qed


lemma append_labels_join:
  assumes "\<forall>l\<in>set ls. l \<noteq> []" "result \<noteq> []" "ls \<noteq> []"
  shows "append_labels result ls = result @ ''.'' @ join_labels ls"
  using assms
proof (induction ls arbitrary: result)
  case Nil
  then show ?case by simp
next
  case (Cons l ls)
  show ?case
  proof (cases ls)
    case Nil
    then show ?thesis using Cons.prems by simp
  next
    case (Cons l' ls')
    then have "append_labels (result @ ''.'' @ l) ls = (result @ ''.'' @ l) @ ''.'' @ join_labels ls"
      using Cons.IH[of "result @ ''.'' @ l"] Cons.prems by simp
    then show ?thesis using Cons Cons.prems by simp
  qed
qed

lemma append_labels_start:
  assumes "\<forall>l\<in>set ls. l \<noteq> []"
  shows "append_labels [] ls = join_labels ls"
proof (cases ls)
  case Nil
  then show ?thesis by simp
next
  case (Cons l ls')
  show ?thesis
  proof (cases ls')
    case Nil
    then show ?thesis using Cons by simp
  next
    case (Cons l' ls'')
    have "append_labels l ls' = l @ ''.'' @ join_labels ls'"
      using assms \<open>ls = l # ls'\<close> Cons by (intro append_labels_join) auto
    then show ?thesis using \<open>ls = l # ls'\<close> Cons by simp
  qed
qed

lemma join_labels_nonempty:
  "ls \<noteq> [] \<Longrightarrow> \<forall>l\<in>set ls. l \<noteq> [] \<Longrightarrow> join_labels ls \<noteq> []"
  by (induction ls rule: join_labels.induct) auto

lemma getline_split_join:
  assumes "\<forall>l\<in>set ls. l \<noteq> [] \<and> CHR ''.'' \<notin> set l"
  shows "getline_split (join_labels ls) = ls"
  using assms
proof (induction ls rule: join_labels.induct)
  case 1
  show ?case by (subst getline_split.simps) simp
next
  case (2 l)
  then have n: "l \<noteq> []" and d: "dropWhile (\<lambda>c. c \<noteq> CHR ''.'') l = []" by auto
  show ?case using n
    by (subst getline_split.simps) (simp only: join_labels.simps d list.case if_False)
next
  case (3 l l' ls)
  then have l: "l \<noteq> []" "\<forall>c\<in>set l. c \<noteq> CHR ''.''" by auto
  have d: "dropWhile (\<lambda>c. c \<noteq> CHR ''.'') (l @ ''.'' @ join_labels (l' # ls)) =
           CHR ''.'' # join_labels (l' # ls)"
    using l(2) by (simp add: dropWhile_append)
  have t: "takeWhile (\<lambda>c. c \<noteq> CHR ''.'') (l @ ''.'' @ join_labels (l' # ls)) = l"
    using l(2) by (simp add: takeWhile_append)
  have "getline_split (join_labels (l' # ls)) = l' # ls" using 3 by simp
  then show ?case using l(1) d t
    by (subst getline_split.simps) (simp del: join_labels.simps(3) add: join_labels.simps(3)[of l l' ls])
qed

text \<open>
  Claim C6, amended. Let the question buffer \<open>b\<close> be the wire form of a name with at least
  one label, each label of 1 to 63 octets none of which is the dot, followed by \<open>qtype\<close> and
  \<open>qclass\<close> in network order. Wherever \<open>b\<close> stands at the end of a datagram,
  \<open>parse_dns_question\<close> succeeds on it with the cursor at the end, the name it returns is the
  labels joined by dots, and \<open>encode_domain_name\<close> of that name followed by the parsed
  \<open>qtype\<close> and \<open>qclass\<close>, stored as \<open>build_dns_response\<close> stores 16-bit fields, is \<open>b\<close>.
\<close>

theorem question_round_trip:
  assumes "labels \<noteq> []"
    and "\<forall>l\<in>set labels. l \<noteq> [] \<and> length l \<le> 63 \<and> CHR ''.'' \<notin> set l"
    and "b = wire_name labels @ be16 qt @ be16 qc"
  shows "\<exists>q. parse_dns_question le (pre @ b) (length (pre @ b)) (length pre) =
                Some (Inr (Some (q, length (pre @ b)))) \<and>
              qname q = join_labels labels \<and> qtype q = qt \<and> qclass q = qc \<and>
              encode_domain_name (qname q) [] @
                store16_host le (htons le (qtype q)) @ store16_host le (htons le (qclass q)) = b"
proof -
  let ?w = "wire_name labels"
  let ?d = "pre @ b"
  let ?o = "length pre + length ?w"
  have ne: "\<forall>l\<in>set labels. l \<noteq> []" and sz: "\<forall>l\<in>set labels. l \<noteq> [] \<and> length l \<le> 63"
    and nd: "\<forall>l\<in>set labels. l \<noteq> [] \<and> CHR ''.'' \<notin> set l"
    using assms(2) by auto
  have "parse_loop (pre @ ?w @ be16 qt @ be16 qc) (length (pre @ ?w @ be16 qt @ be16 qc)) (length pre)
           [] False (length pre) =
         Some (Inr (append_labels [] labels, ?o))"
    by (rule parse_loop_labels[OF sz])
  then have p: "parse_domain_name ?d (length ?d) (length pre) = Some (Inr (join_labels labels, ?o))"
    using append_labels_start[OF ne] assms(3) by (simp add: parse_domain_name_def)
  have n: "join_labels labels \<noteq> []" by (rule join_labels_nonempty[OF assms(1) ne])
  have lb: "length ?d = ?o + 4" using assms(3) by (simp add: be16_def)
  have q: "?d ! ?o = ucast (drop_bit 8 qt)" "?d ! (?o + 1) = ucast qt"
    "?d ! (?o + 2) = ucast (drop_bit 8 qc)" "?d ! (?o + 3) = ucast qc"
    using assms(3) by (simp_all add: be16_def nth_append)
  let ?q = "\<lparr>qname = join_labels labels, qtype = qt, qclass = qc\<rparr>"
  have pq: "parse_dns_question le ?d (length ?d) (length pre) = Some (Inr (Some (?q, length ?d)))"
    using p n lb q by (simp add: parse_dns_question_def ntohs_load16 mk16_split)
  have "encode_domain_name (join_labels labels) [] = ?w"
    using getline_split_join[OF nd] by (simp add: encode_domain_name_def wire_name_def)
  then have "encode_domain_name (qname ?q) [] @
                store16_host le (htons le (qtype ?q)) @ store16_host le (htons le (qclass ?q)) = b"
    using assms(3) by (simp add: store16_htons be16_def)
  then show ?thesis using pq by (intro exI[of _ ?q]) simp
qed

theorem question_round_trip_witness:
  "[''www'', ''a''] \<noteq> [] \<and>
   www_question = wire_name [''www'', ''a''] @ be16 1 @ be16 1 \<and>
   (\<exists>q. parse_dns_question True (sample_header @ www_question) (length (sample_header @ www_question)) (length sample_header) =
           Some (Inr (Some (q, length (sample_header @ www_question)))) \<and>
        qname q = ''www.a'' \<and>
        encode_domain_name (qname q) [] @
          store16_host True (htons True (qtype q)) @ store16_host True (htons True (qclass q)) =
        www_question)"
proof -
  have a: "[''www'', ''a''] \<noteq> []" by simp
  have b: "\<forall>l\<in>set [''www'', ''a'']. l \<noteq> [] \<and> length l \<le> 63 \<and> CHR ''.'' \<notin> set l" by simp
  have c: "www_question = wire_name [''www'', ''a''] @ be16 1 @ be16 1"
    by (simp add: www_question_def wire_name_def encode_label_def be16_def char_to_byte_def)
  from question_round_trip[OF a b c, of True sample_header]
  obtain q where q: "parse_dns_question True (sample_header @ www_question) (length (sample_header @ www_question)) (length sample_header) =
           Some (Inr (Some (q, length (sample_header @ www_question)))) \<and>
        qname q = join_labels [''www'', ''a''] \<and> qtype q = 1 \<and> qclass q = 1 \<and>
        encode_domain_name (qname q) [] @
          store16_host True (htons True (qtype q)) @ store16_host True (htons True (qclass q)) =
        www_question" ..
  note q1 = q[THEN conjunct1] and q2' = q[THEN conjunct2, THEN conjunct1]
    and q3 = q[THEN conjunct2, THEN conjunct2, THEN conjunct2, THEN conjunct2]
  have q2: "qname q = ''www.a''" using q2' by simp
  show ?thesis
    by (intro conjI exI[of _ q]) (fact a c q1 q2 q3)+
qed

text \<open>
  Claim C6, as stated, fails for a label that contains a dot: the question with the single
  label \<open>a.b\<close> (length octet 3) is decoded to the name \<open>a.b\<close>, which \<open>encode_domain_name\<close> splits
  at the dot into the two labels \<open>a\<close> and \<open>b\<close>.
\<close>

theorem dotted_label_not_reproduced:
  "parse_dns_question True dotted_question 9 0 =
     Some (Inr (Some (\<lparr>qname = ''a.b'', qtype = 1, qclass = 1\<rparr>, 9))) \<and>
   encode_domain_name ''a.b'' [] @ store16_host True (htons True 1) @ store16_host True (htons True 1) =
     [1, 0x61, 1, 0x62, 0, 0, 1, 0, 1] \<and>
   dotted_question \<noteq> [1, 0x61, 1, 0x62, 0, 0, 1, 0, 1]"
  by (simp add: dotted_question_def parse_dns_question_def parse_domain_name_def
      parse_loop.simps read_octet_def byte_to_char_def char_of_def bit_Suc_0_iff
      ntohs_load16 mk16_def store16_htons encode_domain_name_def encode_label_def
      getline_split.simps char_to_byte_def)

section \<open>The dispatcher and unsupported queries\<close>


lemma notimp_bytes:
  "build_error_response le (load16_host le b0 b1) 4 = [b0, b1, 0x81, 0x84, 0, 0, 0, 0, 0, 0, 0, 0]"
  by (simp add: build_error_response_def store16_htons store16_load16)

lemma parse_dns_header_id:
  "parse_dns_header le data len = Inr (Some header) \<Longrightarrow>
   hdr_id header = load16_host le (data ! 0) (data ! 1)"
  by (auto simp: parse_dns_header_def split: if_splits)

text \<open>
  Claim C2, amended. For every datagram whose header parses with \<open>qdcount\<close> 1 and whose
  question parses: if \<open>qtype\<close> is not 1, \<open>handle_query\<close> counts the query, sends the
  12-octet reply that repeats the two id octets of the query and has flags \<open>0x8184\<close>
  (RCODE 4) and zero counts, and does nothing else: no lookup in the pre-compiled table or
  the cache, no upstream resolution, the cache unchanged. \<open>qclass\<close> is not examined: a query
  with \<open>qtype\<close> 1 is served exactly as the same query with \<open>qclass\<close> 1.
\<close>

theorem notimp_for_other_types:
  assumes "parse_dns_header (little_endian pf) data len = Inr (Some header)"
    and "qdcount header = 1"
    and "parse_dns_question (little_endian pf) data len 12 = Some (Inr (Some (question, offset)))"
  shows "(qtype question \<noteq> 1 \<longrightarrow>
            handle_query pf clk data len srv =
              Some (Inr (srv\<lparr>total_queries := total_queries srv + 1\<rparr>,
                         [SendTo [data ! 0, data ! 1, 0x81, 0x84, 0, 0, 0, 0, 0, 0, 0, 0]]))) \<and>
         (qtype question = 1 \<longrightarrow>
            handle_query pf clk data len srv =
              Some (serve_query pf clk header (question\<lparr>qclass := 1\<rparr>)
                      (srv\<lparr>total_queries := total_queries srv + 1\<rparr>)))"
proof -
  have i: "hdr_id header = load16_host (little_endian pf) (data ! 0) (data ! 1)"
    by (rule parse_dns_header_id[OF assms(1)])
  have s: "serve_query pf clk header (question\<lparr>qclass := 1\<rparr>) s' =
           serve_query pf clk header question s'" for s'
    by (simp add: serve_query_def Let_def split: option.splits prod.splits)
  show ?thesis
    using assms i by (simp add: handle_query_def Let_def notimp_bytes s)
qed

lemmas wire_eval =
  handle_query_def serve_query_def parse_dns_header_def parse_dns_question_def
  parse_domain_name_def parse_loop.simps read_octet_def byte_to_char_def char_of_def
  bit_Suc_0_iff ntohs_def htons_def byteswap16_def load16_host_def mk16_def get_response_def
  tolower_def
  build_dns_response_def build_error_response_def encode_domain_name_def encode_label_def
  getline_split.simps char_to_byte_def store16_host_def store32_host_def
  htonl_def byteswap32_def Let_def

text \<open>
  Claim C2, as stated, fails for \<open>qtype\<close> 1 with another \<open>qclass\<close>: the A query of class CH
  for \<open>a\<close> goes through the pre-compiled table, the cache and the upstream resolver, and is
  answered with RCODE 0 and an A record of class IN.
\<close>

theorem qclass_not_checked:
  "events_of (handle_query stub_platform stub_clock chaos_query 19 new_server) =
     Some [PrecompiledLookup ''a'', CacheGet ''a'', ResolveUpstream ''a'',
           CacheSet ''a'' ''10.0.0.1'',
           SendTo [0x12, 0x34, 0x81, 0x80, 0, 1, 0, 1, 0, 0, 0, 0,
                   1, 0x61, 0, 0, 1, 0, 1,
                   0xC0, 0x0C, 0, 1, 0, 1, 0, 0, 1, 0x2C, 0, 4, 10, 0, 0, 1]]"
  by (simp add: events_of_def stub_platform_def stub_clock_def chaos_query_def sample_header_def
      new_server_def wire_eval cache_eval)

theorem notimp_for_other_types_witness:
  "events_of (handle_query stub_platform stub_clock aaaa_query 19 new_server) =
     Some [SendTo [0x12, 0x34, 0x81, 0x84, 0, 0, 0, 0, 0, 0, 0, 0]] \<and>
   events_of (handle_query stub_platform stub_clock chaos_query 19 new_server) =
     events_of (Some (serve_query stub_platform stub_clock
        \<lparr>hdr_id = 0x3412, flags = 0x0100, qdcount = 1, ancount = 0, nscount = 0, arcount = 0\<rparr>
        \<lparr>qname = ''a'', qtype = 1, qclass = 1\<rparr>
        (new_server\<lparr>total_queries := total_queries new_server + 1\<rparr>)))"
proof -
  let ?h = "\<lparr>hdr_id = 0x3412, flags = 0x0100, qdcount = 1, ancount = 0, nscount = 0, arcount = 0\<rparr>"
  have h1: "parse_dns_header (little_endian stub_platform) aaaa_query 19 = Inr (Some ?h)"
    by (simp add: stub_platform_def aaaa_query_def sample_header_def wire_eval)
  have h2: "parse_dns_header (little_endian stub_platform) chaos_query 19 = Inr (Some ?h)"
    by (simp add: stub_platform_def chaos_query_def sample_header_def wire_eval)
  have c: "qdcount ?h = 1" by simp
  have q1: "parse_dns_question (little_endian stub_platform) aaaa_query 19 12 =
              Some (Inr (Some (\<lparr>qname = ''a'', qtype = 28, qclass = 1\<rparr>, 19)))"
    by (simp add: stub_platform_def aaaa_query_def sample_header_def wire_eval)
  have q2: "parse_dns_question (little_endian stub_platform) chaos_query 19 12 =
              Some (Inr (Some (\<lparr>qname = ''a'', qtype = 1, qclass = 3\<rparr>, 19)))"
    by (simp add: stub_platform_def chaos_query_def sample_header_def wire_eval)
  have a: "handle_query stub_platform stub_clock aaaa_query 19 new_server =
              Some (Inr (new_server\<lparr>total_queries := total_queries new_server + 1\<rparr>,
                         [SendTo [aaaa_query ! 0, aaaa_query ! 1, 0x81, 0x84, 0, 0, 0, 0, 0, 0, 0, 0]]))"
    using notimp_for_other_types[OF h1 c q1, of stub_clock new_server] by simp
  have b: "handle_query stub_platform stub_clock chaos_query 19 new_server =
              Some (serve_query stub_platform stub_clock ?h
                      (\<lparr>qname = ''a'', qtype = 1, qclass = 3\<rparr>\<lparr>qclass := 1\<rparr>)
                      (new_server\<lparr>total_queries := total_queries new_server + 1\<rparr>))"
    using notimp_for_other_types[OF h2 c q2, of stub_clock new_server] by simp
  have a': "events_of (handle_query stub_platform stub_clock aaaa_query 19 new_server) =
     Some [SendTo [0x12, 0x34, 0x81, 0x84, 0, 0, 0, 0, 0, 0, 0, 0]]"
    unfolding a by (simp add: events_of_def aaaa_query_def sample_header_def)
  show ?thesis unfolding b using a' by simp
qed

section \<open>Statistics\<close>

text \<open>
  Claim C8 says that \<open>get_performance_stats\<close> gives a well-defined zero ratio when
  \<open>total_queries\<close> is zero. The assignment of \<open>cache_hit_ratio\<close> is under
  \<open>if (stats.total_queries > 0)\<close> and has no \<open>else\<close>: on a server that has received no query
  the field is never written (while \<open>Stats::hit_ratio\<close> of the cache gives 0.0 in the same
  situation).
\<close>

theorem cache_hit_ratio_unset_without_queries:
  "cache_hit_ratio (get_performance_stats new_server) = None"
  by (simp add: get_performance_stats_def new_server_def Let_def)


end
